theory Spec2Isabelle
  imports Complex_Main "HOL-Library.AList"
begin

section \<open>Values\<close>

text \<open>
  The request body is a \<^verbatim>\<open>Record<string, unknown>\<close> that arrives as parsed JSON, so an
  \<^verbatim>\<open>unknown\<close> value is a JSON value. An object is the list of its own enumerable
  entries in the order \<^verbatim>\<open>Object.entries\<close> yields them; an absent property
  (\<^verbatim>\<open>undefined\<close>) is \<open>None\<close>. A string is its sequence of code units, a number the
  real it denotes (the code only ever tests a number for being zero).
\<close>

datatype json =
    JNull
  | JBool bool
  | JNum real
  | JStr string
  | JArr "json list"
  | JObj "(string \<times> json) list"

text \<open>\<^verbatim>\<open>Record<string, unknown>\<close> and \<^verbatim>\<open>Record<string, string>\<close>.\<close>

type_synonym object = "(string \<times> json) list"
type_synonym headers = "(string \<times> string) list"

subsection \<open>Interface types\<close>

record RawGatewayRequest =
  raw_body :: string

record GatewayRequest =
  path :: string
  httpMethod :: string
  headers :: "headers option"
  body :: object

record McpInput =
  rawGatewayRequest :: RawGatewayRequest
  gatewayRequest :: GatewayRequest

record InterceptorInput =
  interceptorInputVersion :: string
  mcp :: McpInput

record TransformedGatewayRequest =
  t_headers :: "headers option"
  t_body :: object

record TransformedGatewayResponse =
  statusCode :: real
  r_body :: object

record McpOutput =
  transformedGatewayRequest :: TransformedGatewayRequest
  transformedGatewayResponse :: "TransformedGatewayResponse option"

record InterceptorOutput =
  interceptorOutputVersion :: string
  mcp_out :: McpOutput

subsection \<open>Logging\<close>

text \<open>Whatever \<^verbatim>\<open>console.log\<close> or \<^verbatim>\<open>JSON.stringify\<close> throws.\<close>

datatype error = Thrown string

text \<open>What a logging statement prints after its label: a string, or a value it serialises.\<close>

datatype logged =
    LText string
  | LInput InterceptorInput
  | LHeaders "headers option"
  | LObject object
  | LOutput InterceptorOutput

text \<open>
  One statement \<^verbatim>\<open>console.log(label, x)\<close> or \<^verbatim>\<open>console.log(label, JSON.stringify(x, null, 2))\<close>.
  The console is a capability of the runtime: \<open>None\<close> is a normal return, \<open>Some e\<close> is
  the exception \<open>e\<close> thrown while serialising or printing. The printed text is not kept.
\<close>

type_synonym console = "string \<Rightarrow> logged \<Rightarrow> error option"

text \<open>How deep the objects and arrays of a value are nested: 0 for a string, a number, a
  boolean or null, 1 for an object or array of such values.\<close>

fun json_depth :: "json \<Rightarrow> nat" where
  "json_depth (JArr vs) = Suc (fold max (map json_depth vs) 0)"
| "json_depth (JObj kvs) = Suc (fold max (map (\<lambda>p. json_depth (snd p)) kvs) 0)"
| "json_depth v = 0"

text \<open>
  The nesting of what a logging statement serialises. A string is printed as it is. The
  body of the request is three objects below the input envelope, and the body of the
  transformed request three objects below the output envelope; the header mapping beside
  it is flat, so the body decides the depth of the envelope.
\<close>

fun logged_depth :: "logged \<Rightarrow> nat" where
  "logged_depth (LText s) = 0"
| "logged_depth (LHeaders None) = 0"
| "logged_depth (LHeaders (Some h)) = 1"
| "logged_depth (LObject obj) = json_depth (JObj obj)"
| "logged_depth (LInput i) = 3 + json_depth (JObj (body (gatewayRequest (mcp i))))"
| "logged_depth (LOutput out) =
     3 + max (json_depth (JObj (t_body (transformedGatewayRequest (mcp_out out)))))
             (case transformedGatewayResponse (mcp_out out) of
                None \<Rightarrow> 0
              | Some r \<Rightarrow> json_depth (JObj (r_body r)))"

text \<open>
  The runtime's console on values parsed from JSON. \<^verbatim>\<open>console.log\<close> prints and returns;
  \<^verbatim>\<open>JSON.stringify\<close> calls itself on every nested object and array and throws a
  \<^verbatim>\<open>RangeError\<close> when the nesting exhausts the call stack. The stack of a run holds one
  level of nesting and \<open>limit\<close> more: a string and a flat header mapping are printed in
  every run, a body is printed when it is not nested too deep.
\<close>

definition node_console :: "nat \<Rightarrow> console" where
  "node_console limit label x =
     (if logged_depth x \<le> Suc limit then None
      else Some (Thrown ''RangeError: Maximum call stack size exceeded''))"

text \<open>A statement that may throw, followed by the rest of the function body.\<close>

fun and_then :: "error option \<Rightarrow> (error + 'a) \<Rightarrow> (error + 'a)" where
  "and_then (Some e) rest = Inl e"
| "and_then None rest = rest"

text \<open>A call that may throw, whose result the rest of the body uses.\<close>

fun bind_result :: "(error + 'a) \<Rightarrow> ('a \<Rightarrow> error + 'b) \<Rightarrow> (error + 'b)" where
  "bind_result (Inl e) k = Inl e"
| "bind_result (Inr x) k = k x"

subsection \<open>The language's own operations\<close>

text \<open>
  Defining an own property, as a property of an object literal and the copy of a spread
  do: an existing own property keeps its place and takes the new value, a new one is
  added last. (The source enumerates keys that are array indices before the others; the
  statements below are about lookups, or about results none of whose keys is an index.)
\<close>

definition define_prop :: "string \<Rightarrow> 'v \<Rightarrow> (string \<times> 'v) list \<Rightarrow> (string \<times> 'v) list" where
  "define_prop k v obj = AList.update k v obj"

text \<open>
  \<^verbatim>\<open>obj[key] = value\<close> where \<open>value\<close> is a string and \<open>obj\<close> was created by \<^verbatim>\<open>{}\<close>.
  The assignment goes through the prototype chain: for the key \<^verbatim>\<open>__proto__\<close> it reaches
  the accessor of \<^verbatim>\<open>Object.prototype\<close>, whose setter returns without doing anything when
  the value is neither an object nor null, so no own property is created. Every other
  key creates or overwrites an own property.
\<close>

definition assign :: "string \<Rightarrow> string \<Rightarrow> headers \<Rightarrow> headers" where
  "assign k v obj = (if k = ''__proto__'' then obj else define_prop k v obj)"

text \<open>
  \<^verbatim>\<open>String.prototype.toLowerCase\<close> on the characters of the model: the letters A to Z
  change. The source only asks whether the result starts with \<^verbatim>\<open>x-amzn\<close>, and no character
  outside A to Z has one of these six as its lower case.
\<close>

definition lower_char :: "char \<Rightarrow> char" where
  "lower_char c =
     (case map_of (zip ''ABCDEFGHIJKLMNOPQRSTUVWXYZ'' ''abcdefghijklmnopqrstuvwxyz'') c of
        Some l \<Rightarrow> l
      | None \<Rightarrow> c)"

definition toLowerCase :: "string \<Rightarrow> string" where
  "toLowerCase s = map lower_char s"

text \<open>\<^verbatim>\<open>s.startsWith(p)\<close>.\<close>

definition startsWith :: "string \<Rightarrow> string \<Rightarrow> bool" where
  "startsWith s p = (take (length p) s = p)"

text \<open>Truthiness, as \<^verbatim>\<open>||\<close> tests it.\<close>

fun truthy :: "json \<Rightarrow> bool" where
  "truthy JNull = False"
| "truthy (JBool b) = b"
| "truthy (JNum x) = (x \<noteq> 0)"
| "truthy (JStr s) = (s \<noteq> [])"
| "truthy (JArr vs) = True"
| "truthy (JObj kvs) = True"

text \<open>\<^verbatim>\<open>x || {}\<close>, where \<open>x\<close> may be \<^verbatim>\<open>undefined\<close>.\<close>

fun or_empty :: "json option \<Rightarrow> json" where
  "or_empty None = JObj []"
| "or_empty (Some v) = (if truthy v then v else JObj [])"

text \<open>
  \<^verbatim>\<open>v.arguments\<close> for a truthy \<open>v\<close>: an object's own property; a string, a number, a
  boolean or an array has no such property, on itself or on its prototype.
\<close>

fun get_arguments :: "json \<Rightarrow> json option" where
  "get_arguments (JObj kvs) = map_of kvs ''arguments''"
| "get_arguments v = None"

text \<open>The decimal numeral of an index, as property keys of strings and arrays are written.\<close>

definition digit_char :: "nat \<Rightarrow> char" where
  "digit_char d = ''0123456789'' ! d"

fun show_nat :: "nat \<Rightarrow> string" where
  "show_nat n = (if n < 10 then [digit_char n] else show_nat (n div 10) @ [digit_char (n mod 10)])"

declare show_nat.simps [simp del]

text \<open>
  The own enumerable properties that \<^verbatim>\<open>{...v}\<close> copies: the entries of an object, the
  elements of an array and the characters of a string under their indices, nothing for
  null, a boolean or a number.
\<close>

fun own_props :: "json \<Rightarrow> object" where
  "own_props (JObj kvs) = kvs"
| "own_props (JArr vs) = zip (map show_nat [0..<length vs]) vs"
| "own_props (JStr s) = zip (map show_nat [0..<length s]) (map (\<lambda>c. JStr [c]) s)"
| "own_props v = []"

text \<open>\<^verbatim>\<open>...v\<close> inside an object literal whose earlier properties are \<open>obj\<close>.\<close>

definition spread :: "json \<Rightarrow> object \<Rightarrow> object" where
  "spread v obj = fold (\<lambda>(k, x). define_prop k x) (own_props v) obj"

text \<open>A header mapping as the value it is.\<close>

definition json_of_headers :: "headers \<Rightarrow> json" where
  "json_of_headers h = JObj (map (\<lambda>(k, v). (k, JStr v)) h)"

section \<open>The interceptor\<close>

text \<open>The constructor of a short-circuit response; the handler does not call it.\<close>

definition createTransformedGatewayResponse :: "real \<Rightarrow> object \<Rightarrow> TransformedGatewayResponse" where
  "createTransformedGatewayResponse sc b = \<lparr>statusCode = sc, r_body = b\<rparr>"

text \<open>A loop \<^verbatim>\<open>for (const [key, value] of Object.entries(h)) target[key] = value\<close>.\<close>

definition forward_all :: "headers \<Rightarrow> headers \<Rightarrow> headers" where
  "forward_all h target = fold (\<lambda>(key, val). assign key val) h target"

text \<open>
  \<^verbatim>\<open>propagateHeaders\<close>: a new object, every incoming header assigned to it, then every
  additional header, then the logging statement.
\<close>

definition propagateHeaders :: "console \<Rightarrow> headers option \<Rightarrow> headers option \<Rightarrow> error + headers" where
  "propagateHeaders console incomingHeaders additionalHeaders =
     (let propagated0 = [];
          propagated1 = (case incomingHeaders of
                           None \<Rightarrow> propagated0
                         | Some h \<Rightarrow> forward_all h propagated0);
          propagated2 = (case additionalHeaders of
                           None \<Rightarrow> propagated1
                         | Some h \<Rightarrow> forward_all h propagated1)
      in and_then (console ''Propagated Headers:'' (LHeaders (Some propagated2)))
           (Inr propagated2))"

text \<open>The template literal \<^verbatim>\<open>`mcp_header_${key}`\<close>.\<close>

definition prefix_key :: "string \<Rightarrow> string" where
  "prefix_key key = ''mcp_header_'' @ key"

text \<open>One iteration of the loop of \<^verbatim>\<open>filterAndPrefixHeaders\<close>.\<close>

definition filter_step :: "string \<times> string \<Rightarrow> headers \<Rightarrow> headers" where
  "filter_step = (\<lambda>(key, val) result.
     if startsWith (toLowerCase key) ''x-amzn'' then result
     else assign (prefix_key key) val result)"

text \<open>
  \<^verbatim>\<open>filterAndPrefixHeaders\<close>: the early return on an absent mapping comes before the
  logging statement.
\<close>

definition filterAndPrefixHeaders :: "console \<Rightarrow> headers option \<Rightarrow> error + headers" where
  "filterAndPrefixHeaders console hs =
     (case hs of
        None \<Rightarrow> Inr []
      | Some h \<Rightarrow>
          (let result = fold filter_step h []
           in and_then (console ''Filtered and Prefixed Headers:'' (LHeaders (Some result)))
                (Inr result)))"

text \<open>
  The body-reshaping statements of \<^verbatim>\<open>handleInterceptorRequest\<close>, from
  \<^verbatim>\<open>const originalBody\<close> to the object literal \<^verbatim>\<open>mergedBody\<close>.
\<close>

definition mergeBody :: "object \<Rightarrow> headers \<Rightarrow> object" where
  "mergeBody originalBody prefixedHeaders =
     (let params = or_empty (map_of originalBody ''params'');
          existingArguments = or_empty (get_arguments params)
      in define_prop ''params''
           (JObj (define_prop ''arguments''
                    (JObj (spread (json_of_headers prefixedHeaders) (spread existingArguments [])))
                    (spread params [])))
           (spread (JObj originalBody) []))"

text \<open>
  \<^verbatim>\<open>handleInterceptorRequest\<close>, statement by statement. Nothing is caught: an exception of
  a logging statement, or of a function it calls, ends the handler.
\<close>

definition handleInterceptorRequest :: "console \<Rightarrow> InterceptorInput \<Rightarrow> error + InterceptorOutput" where
  "handleInterceptorRequest console input =
     (let req = gatewayRequest (mcp input) in
      and_then (console ''Interceptor Input:'' (LInput input))
     (and_then (console ''Raw Gateway Request Body:'' (LText (raw_body (rawGatewayRequest (mcp input)))))
     (and_then (console ''Gateway Request Path:'' (LText (path req)))
     (and_then (console ''Gateway Request Method:'' (LText (httpMethod req)))
     (and_then (console ''Gateway Request Headers:'' (LHeaders (headers req)))
     (and_then (console ''Gateway Request Body:'' (LObject (body req)))
     (bind_result (propagateHeaders console (headers req) None) (\<lambda>hdrs.
      bind_result (filterAndPrefixHeaders console (headers req)) (\<lambda>prefixedHeaders.
        (let mergedBody = mergeBody (body req) prefixedHeaders;
             output = \<lparr>interceptorOutputVersion = ''1.0'',
                       mcp_out = \<lparr>transformedGatewayRequest =
                                    \<lparr>t_headers = Some hdrs, t_body = mergedBody\<rparr>,
                                  transformedGatewayResponse = None\<rparr>\<rparr>
         in and_then (console ''Interceptor Output:'' (LOutput output)) (Inr output)))))))))))"

section \<open>The interceptor on a store\<close>

text \<open>
  The same functions with objects held in a store, for the statements about which objects
  the handler writes to and which it creates. Both versions compute the same envelope
  (\<open>handler_refines\<close> below).
\<close>

text \<open>
  A value with identity: an object or array is a reference into the store, so that two
  fields can hold the same object.
\<close>

datatype val = VNull | VBool bool | VNum real | VStr string | VRef nat

text \<open>What the store holds at an address: the entries of an object or the elements of an array.\<close>

datatype cell = Obj "(string \<times> val) list" | Arr "val list"

text \<open>The store. An address is an index; a new object is added at the end.\<close>

type_synonym heap = "cell list"

text \<open>A logging statement sees the store and the value it prints.\<close>

type_synonym heap_console = "string \<Rightarrow> heap \<Rightarrow> val option \<Rightarrow> error option"

text \<open>A console on which no logging statement throws.\<close>

definition silent_heap_console :: heap_console where
  "silent_heap_console label h x = None"

text \<open>
  A new object with the given entries. An object literal is evaluated to its entries first
  and allocated then: no code runs between its creation and the definition of its
  properties.
\<close>

definition alloc :: "(string \<times> val) list \<Rightarrow> heap \<Rightarrow> heap \<times> nat" where
  "alloc kvs h = (h @ [Obj kvs], length h)"

text \<open>Truthiness; \<open>None\<close> is \<^verbatim>\<open>undefined\<close>.\<close>

fun val_truthy :: "val option \<Rightarrow> bool" where
  "val_truthy None = False"
| "val_truthy (Some VNull) = False"
| "val_truthy (Some (VBool b)) = b"
| "val_truthy (Some (VNum x)) = (x \<noteq> 0)"
| "val_truthy (Some (VStr s)) = (s \<noteq> [])"
| "val_truthy (Some (VRef a)) = True"

text \<open>The own enumerable properties of an object or array.\<close>

fun cell_props :: "cell \<Rightarrow> (string \<times> val) list" where
  "cell_props (Obj kvs) = kvs"
| "cell_props (Arr vs) = zip (map show_nat [0..<length vs]) vs"

text \<open>\<^verbatim>\<open>Object.entries(v)\<close>, and what \<^verbatim>\<open>{...v}\<close> copies.\<close>

fun val_props :: "heap \<Rightarrow> val option \<Rightarrow> (string \<times> val) list" where
  "val_props h (Some (VRef a)) = (if a < length h then cell_props (h ! a) else [])"
| "val_props h (Some (VStr s)) = zip (map show_nat [0..<length s]) (map (\<lambda>c. VStr [c]) s)"
| "val_props h v = []"

text \<open>
  \<^verbatim>\<open>v.k\<close> for the property names the handler reads, none of which a prototype provides:
  an own property of an object, \<^verbatim>\<open>undefined\<close> otherwise.
\<close>

fun val_field :: "heap \<Rightarrow> val option \<Rightarrow> string \<Rightarrow> val option" where
  "val_field h (Some (VRef a)) k =
     (if a < length h then (case h ! a of Obj kvs \<Rightarrow> map_of kvs k | Arr vs \<Rightarrow> None) else None)"
| "val_field h v k = None"

text \<open>\<^verbatim>\<open>v.k\<close> where \<open>v\<close> may be \<^verbatim>\<open>undefined\<close> or null: the read throws a TypeError then.\<close>

fun member :: "heap \<Rightarrow> val option \<Rightarrow> string \<Rightarrow> error + val option" where
  "member h None k = Inl (Thrown ''TypeError'')"
| "member h (Some VNull) k = Inl (Thrown ''TypeError'')"
| "member h v k = Inr (val_field h v k)"

text \<open>Defining an own property of the object at an address, in place.\<close>

definition store_prop :: "nat \<Rightarrow> string \<Rightarrow> val \<Rightarrow> heap \<Rightarrow> heap" where
  "store_prop t k v h =
     (if t < length h
      then (case h ! t of Obj kvs \<Rightarrow> h[t := Obj (define_prop k v kvs)] | Arr vs \<Rightarrow> h)
      else h)"

text \<open>
  \<^verbatim>\<open>obj[key] = value\<close> in place, for an object created by \<^verbatim>\<open>{}\<close> and a value that is a
  string, as the values of a header mapping are.
\<close>

definition assign_heap :: "nat \<Rightarrow> string \<Rightarrow> val \<Rightarrow> heap \<Rightarrow> heap" where
  "assign_heap t k v h = (if k = ''__proto__'' then h else store_prop t k v h)"

text \<open>The entries of an object literal after \<^verbatim>\<open>...v\<close>.\<close>

definition copy_props :: "heap \<Rightarrow> val option \<Rightarrow> (string \<times> val) list \<Rightarrow> (string \<times> val) list" where
  "copy_props h v kvs = fold (\<lambda>(k, x). define_prop k x) (val_props h v) kvs"

text \<open>The three functions on the store; a result is the new store and the address of the object.\<close>

definition propagateHeaders_heap ::
  "heap_console \<Rightarrow> val option \<Rightarrow> val option \<Rightarrow> heap \<Rightarrow> error + heap \<times> nat" where
  "propagateHeaders_heap console incomingHeaders additionalHeaders h =
     (let (h1, propagated) = alloc [] h;
          h2 = (if val_truthy incomingHeaders
                then fold (\<lambda>(key, val). assign_heap propagated key val) (val_props h1 incomingHeaders) h1
                else h1);
          h3 = (if val_truthy additionalHeaders
                then fold (\<lambda>(key, val). assign_heap propagated key val) (val_props h2 additionalHeaders) h2
                else h2)
      in and_then (console ''Propagated Headers:'' h3 (Some (VRef propagated)))
           (Inr (h3, propagated)))"

definition filter_step_heap :: "nat \<Rightarrow> string \<times> val \<Rightarrow> heap \<Rightarrow> heap" where
  "filter_step_heap result = (\<lambda>(key, val) h.
     if startsWith (toLowerCase key) ''x-amzn'' then h
     else assign_heap result (prefix_key key) val h)"

definition filterAndPrefixHeaders_heap ::
  "heap_console \<Rightarrow> val option \<Rightarrow> heap \<Rightarrow> error + heap \<times> nat" where
  "filterAndPrefixHeaders_heap console hs h =
     (let (h1, result) = alloc [] h in
      if \<not> val_truthy hs then Inr (h1, result)
      else (let h2 = fold (filter_step_heap result) (val_props h1 hs) h1
            in and_then (console ''Filtered and Prefixed Headers:'' h2 (Some (VRef result)))
                 (Inr (h2, result))))"

text \<open>\<^verbatim>\<open>x || {}\<close>: the value itself when it is truthy, a new empty object otherwise.\<close>

definition or_new :: "val option \<Rightarrow> heap \<Rightarrow> heap \<times> val" where
  "or_new x h = (if val_truthy x then (h, the x) else (let (h1, a) = alloc [] h in (h1, VRef a)))"

text \<open>The body-reshaping statements. The innermost literal is allocated first.\<close>

definition mergeBody_heap :: "val option \<Rightarrow> nat \<Rightarrow> heap \<Rightarrow> error + heap \<times> nat" where
  "mergeBody_heap originalBody prefixedHeaders h =
     bind_result (member h originalBody ''params'') (\<lambda>p.
       (let (h1, params) = or_new p h;
            (h2, existingArguments) = or_new (val_field h1 (Some params) ''arguments'') h1;
            (h3, args) = alloc (copy_props h2 (Some (VRef prefixedHeaders))
                                 (copy_props h2 (Some existingArguments) [])) h2;
            (h4, pm) = alloc (define_prop ''arguments'' (VRef args)
                                 (copy_props h3 (Some params) [])) h3;
            (h5, merged) = alloc (define_prop ''params'' (VRef pm)
                                 (copy_props h4 originalBody [])) h4
        in Inr (h5, merged)))"

text \<open>The literal of the output envelope.\<close>

definition output_heap :: "nat \<Rightarrow> nat \<Rightarrow> heap \<Rightarrow> heap \<times> nat" where
  "output_heap hdrs mergedBody h =
     (let (h1, req) = alloc [(''headers'', VRef hdrs), (''body'', VRef mergedBody)] h;
          (h2, m) = alloc [(''transformedGatewayRequest'', VRef req)] h1
      in alloc [(''interceptorOutputVersion'', VStr ''1.0''), (''mcp'', VRef m)] h2)"

definition handleInterceptorRequest_heap ::
  "heap_console \<Rightarrow> nat \<Rightarrow> heap \<Rightarrow> error + heap \<times> nat" where
  "handleInterceptorRequest_heap console input h =
     and_then (console ''Interceptor Input:'' h (Some (VRef input)))
    (bind_result (member h (Some (VRef input)) ''mcp'') (\<lambda>m.
     bind_result (member h m ''rawGatewayRequest'') (\<lambda>raw.
     bind_result (member h raw ''body'') (\<lambda>rawBody.
     and_then (console ''Raw Gateway Request Body:'' h rawBody)
    (bind_result (member h m ''gatewayRequest'') (\<lambda>req.
     bind_result (member h req ''path'') (\<lambda>p.
     and_then (console ''Gateway Request Path:'' h p)
    (bind_result (member h req ''httpMethod'') (\<lambda>meth.
     and_then (console ''Gateway Request Method:'' h meth)
    (bind_result (member h req ''headers'') (\<lambda>hs.
     and_then (console ''Gateway Request Headers:'' h hs)
    (bind_result (member h req ''body'') (\<lambda>b.
     and_then (console ''Gateway Request Body:'' h b)
    (bind_result (propagateHeaders_heap console hs None h) (\<lambda>(h1, hdrs).
     bind_result (filterAndPrefixHeaders_heap console hs h1) (\<lambda>(h2, prefixedHeaders).
     bind_result (mergeBody_heap b prefixedHeaders h2) (\<lambda>(h3, mergedBody).
       (let (h4, output) = output_heap hdrs mergedBody h3
        in and_then (console ''Interceptor Output:'' h4 (Some (VRef output)))
             (Inr (h4, output))))))))))))))))))))"


text \<open>
  A store holding an input envelope at address 0: headers at 4, body at 5 with the
  object \<open>a\<close> at 6 and \<open>params\<close> at 7.
\<close>

definition sample_heap :: heap where
  "sample_heap =
     [Obj [(''interceptorInputVersion'', VStr ''1.0''), (''mcp'', VRef 1)],
      Obj [(''rawGatewayRequest'', VRef 2), (''gatewayRequest'', VRef 3)],
      Obj [(''body'', VStr ''{}'')],
      Obj [(''path'', VStr ''/mcp''), (''httpMethod'', VStr ''POST''), (''headers'', VRef 4), (''body'', VRef 5)],
      Obj [(''Authorization'', VStr ''Bearer t''), (''x-amzn-trace'', VStr ''1'')],
      Obj [(''a'', VRef 6), (''params'', VRef 7)],
      Obj [],
      Obj [(''b'', VNum 2)]]"


text \<open>A field that holds an object.\<close>

definition ref_field :: "heap \<Rightarrow> nat \<Rightarrow> string \<Rightarrow> nat option" where
  "ref_field h a k = (case val_field h (Some (VRef a)) k of Some (VRef r) \<Rightarrow> Some r | _ \<Rightarrow> None)"


subsection \<open>Values in the store and values\<close>

text \<open>
  A value of the store represents a value: a primitive represents itself, a reference
  represents an object (an array) when the store holds an object (an array) there whose
  entries (elements) represent the entries (elements), key by key and in the same order.
\<close>

fun rep :: "heap \<Rightarrow> val \<Rightarrow> json \<Rightarrow> bool" where
  "rep h v JNull = (v = VNull)"
| "rep h v (JBool b) = (v = VBool b)"
| "rep h v (JNum x) = (v = VNum x)"
| "rep h v (JStr s) = (v = VStr s)"
| "rep h v (JArr js) =
     (case v of
        VRef a \<Rightarrow> a < length h \<and> (case h ! a of Arr vs \<Rightarrow> list_all2 (\<lambda>x j. rep h x j) vs js | Obj kvs \<Rightarrow> False)
      | _ \<Rightarrow> False)"
| "rep h v (JObj jkvs) =
     (case v of
        VRef a \<Rightarrow> a < length h \<and>
          (case h ! a of
             Obj kvs \<Rightarrow> list_all2 (\<lambda>p q. fst p = fst q \<and> rep h (snd p) (snd q)) kvs jkvs
           | Arr vs \<Rightarrow> False)
      | _ \<Rightarrow> False)"

text \<open>Entries with the same key whose values correspond.\<close>

abbreviation (input) entry_rep :: "heap \<Rightarrow> string \<times> val \<Rightarrow> string \<times> json \<Rightarrow> bool" where
  "entry_rep h \<equiv> (\<lambda>p q. fst p = fst q \<and> rep h (snd p) (snd q))"

text \<open>An optional header mapping: absent on both sides, or an object that represents it.\<close>

definition header_rep :: "heap \<Rightarrow> val option \<Rightarrow> headers option \<Rightarrow> bool" where
  "header_rep h x hs =
     (case hs of
        None \<Rightarrow> x = None
      | Some H \<Rightarrow> (case x of Some (VRef a) \<Rightarrow> rep h (VRef a) (json_of_headers H) | _ \<Rightarrow> False))"

text \<open>The entries of a header mapping as values.\<close>

abbreviation (input) header_entries :: "headers \<Rightarrow> (string \<times> json) list" where
  "header_entries H \<equiv> map (\<lambda>(k, v). (k, JStr v)) H"

text \<open>The object at an address represents an input envelope, field by field.\<close>

definition input_rep :: "heap \<Rightarrow> nat \<Rightarrow> InterceptorInput \<Rightarrow> bool" where
  "input_rep h input i =
     (case ref_field h input ''mcp'' of None \<Rightarrow> False | Some m \<Rightarrow>
     (case ref_field h m ''rawGatewayRequest'' of None \<Rightarrow> False | Some raw \<Rightarrow>
     (case ref_field h m ''gatewayRequest'' of None \<Rightarrow> False | Some req \<Rightarrow>
     (case ref_field h req ''body'' of None \<Rightarrow> False | Some b \<Rightarrow>
        val_field h (Some (VRef input)) ''interceptorInputVersion'' =
          Some (VStr (interceptorInputVersion i)) \<and>
        val_field h (Some (VRef raw)) ''body'' = Some (VStr (raw_body (rawGatewayRequest (mcp i)))) \<and>
        val_field h (Some (VRef req)) ''path'' = Some (VStr (path (gatewayRequest (mcp i)))) \<and>
        val_field h (Some (VRef req)) ''httpMethod'' = Some (VStr (httpMethod (gatewayRequest (mcp i)))) \<and>
        header_rep h (val_field h (Some (VRef req)) ''headers'') (headers (gatewayRequest (mcp i))) \<and>
        rep h (VRef b) (JObj (body (gatewayRequest (mcp i))))))))"

text \<open>The object at an address represents an output envelope.\<close>

definition output_rep :: "heap \<Rightarrow> nat \<Rightarrow> InterceptorOutput \<Rightarrow> bool" where
  "output_rep h out res =
     (case ref_field h out ''mcp'' of None \<Rightarrow> False | Some m \<Rightarrow>
     (case ref_field h m ''transformedGatewayRequest'' of None \<Rightarrow> False | Some t \<Rightarrow>
     (case ref_field h t ''body'' of None \<Rightarrow> False | Some b \<Rightarrow>
        val_field h (Some (VRef out)) ''interceptorOutputVersion'' =
          Some (VStr (interceptorOutputVersion res)) \<and>
        val_field h (Some (VRef m)) ''transformedGatewayResponse'' = None \<and>
        transformedGatewayResponse (mcp_out res) = None \<and>
        header_rep h (val_field h (Some (VRef t)) ''headers'')
          (t_headers (transformedGatewayRequest (mcp_out res))) \<and>
        rep h (VRef b) (JObj (t_body (transformedGatewayRequest (mcp_out res)))))))"

text \<open>The input envelope that \<open>sample_heap\<close> holds at address 0.\<close>

definition sample_heap_input :: InterceptorInput where
  "sample_heap_input = \<lparr>interceptorInputVersion = ''1.0'',
     mcp = \<lparr>rawGatewayRequest = \<lparr>raw_body = ''{}''\<rparr>,
            gatewayRequest = \<lparr>path = ''/mcp'', httpMethod = ''POST'',
              headers = Some [(''Authorization'', ''Bearer t''), (''x-amzn-trace'', ''1'')],
              body = [(''a'', JObj []), (''params'', JObj [(''b'', JNum 2)])]\<rparr>\<rparr>\<rparr>"

section \<open>Notions the statements use\<close>

text \<open>
  A value that can exist at run time: the keys of every object are pairwise different,
  at every depth.
\<close>

fun wf_json :: "json \<Rightarrow> bool" where
  "wf_json (JObj kvs) = (distinct (map fst kvs) \<and> (\<forall>v \<in> snd ` set kvs. wf_json v))"
| "wf_json (JArr vs) = (\<forall>v \<in> set vs. wf_json v)"
| "wf_json v = True"

text \<open>
  The fields of a value that may be absent, as a copy sees them: none when it is absent.
\<close>

definition fields :: "json option \<Rightarrow> string \<Rightarrow> json option" where
  "fields x = (case x of None \<Rightarrow> Map.empty | Some v \<Rightarrow> map_of (own_props v))"

text \<open>A header name that the filter drops.\<close>

definition reserved :: "string \<Rightarrow> bool" where
  "reserved k = startsWith (toLowerCase k) ''x-amzn''"

text \<open>The filtered and renamed entries of a header mapping, in closed form.\<close>

definition prefixed :: "headers \<Rightarrow> headers" where
  "prefixed h = map (\<lambda>(k, v). (prefix_key k, v)) (filter (\<lambda>(k, v). \<not> reserved k) h)"

text \<open>The entries that \<^verbatim>\<open>propagateHeaders\<close> forwards from a mapping, in closed form.\<close>

definition forwarded :: "headers \<Rightarrow> headers" where
  "forwarded h = filter (\<lambda>(k, v). k \<noteq> ''__proto__'') h"

text \<open>A value that is an object, not an array, a string, a number, a boolean or null.\<close>

fun is_object :: "json \<Rightarrow> bool" where
  "is_object (JObj kvs) = True"
| "is_object v = False"

text \<open>An object without one of its fields: the object "as if the field were absent".\<close>

definition drop_prop :: "string \<Rightarrow> object \<Rightarrow> object" where
  "drop_prop k obj = filter (\<lambda>p. fst p \<noteq> k) obj"

text \<open>The header mapping of a request; an absent mapping has no entries.\<close>

definition incoming :: "headers option \<Rightarrow> headers" where
  "incoming hs = (case hs of None \<Rightarrow> [] | Some h \<Rightarrow> h)"

text \<open>
  The output envelope that the statements of \<^verbatim>\<open>handleInterceptorRequest\<close> build, without
  the logging statements between them.
\<close>

definition transformed :: "InterceptorInput \<Rightarrow> InterceptorOutput" where
  "transformed input =
     (let req = gatewayRequest (mcp input) in
      \<lparr>interceptorOutputVersion = ''1.0'',
       mcp_out = \<lparr>transformedGatewayRequest =
                    \<lparr>t_headers = Some (forward_all (incoming (headers req)) []),
                     t_body = mergeBody (body req) (fold filter_step (incoming (headers req)) [])\<rparr>,
                  transformedGatewayResponse = None\<rparr>\<rparr>)"

text \<open>
  The logging statements that a call of \<^verbatim>\<open>handleInterceptorRequest\<close> reaches when none of
  them throws, in the order of execution, each with its label and the value it prints: the
  six of the handler (lines 137 to 142), the one of \<^verbatim>\<open>propagateHeaders\<close> (line 98), the
  one of \<^verbatim>\<open>filterAndPrefixHeaders\<close> (line 126) unless that function returned early on an
  absent header mapping, and the last one of the handler (line 176).
\<close>

definition statements :: "InterceptorInput \<Rightarrow> (string \<times> logged) list" where
  "statements input =
     (let req = gatewayRequest (mcp input) in
      [(''Interceptor Input:'', LInput input),
       (''Raw Gateway Request Body:'', LText (raw_body (rawGatewayRequest (mcp input)))),
       (''Gateway Request Path:'', LText (path req)),
       (''Gateway Request Method:'', LText (httpMethod req)),
       (''Gateway Request Headers:'', LHeaders (headers req)),
       (''Gateway Request Body:'', LObject (body req)),
       (''Propagated Headers:'', LHeaders (Some (forward_all (incoming (headers req)) [])))]
      @ (case headers req of
           None \<Rightarrow> []
         | Some h \<Rightarrow> [(''Filtered and Prefixed Headers:'', LHeaders (Some (fold filter_step h [])))])
      @ [(''Interceptor Output:'', LOutput (transformed input))])"

text \<open>
  The exception of the first statement of a list that throws on a console; \<open>None\<close> when
  every statement of the list returns.
\<close>

fun first_throw :: "console \<Rightarrow> (string \<times> logged) list \<Rightarrow> error option" where
  "first_throw c [] = None"
| "first_throw c ((label, x) # rest) =
     (case c label x of Some e \<Rightarrow> Some e | None \<Rightarrow> first_throw c rest)"

subsection \<open>Sample data\<close>

text \<open>An array nested \<open>n\<close> times around \<^verbatim>\<open>null\<close>, and a request whose body holds it.\<close>

fun nested :: "nat \<Rightarrow> json" where
  "nested 0 = JNull"
| "nested (Suc n) = JArr [nested n]"


definition sample_input :: InterceptorInput where
  "sample_input = \<lparr>interceptorInputVersion = ''1.0'',
     mcp = \<lparr>rawGatewayRequest = \<lparr>raw_body = ''{}''\<rparr>,
            gatewayRequest = \<lparr>path = ''/mcp'', httpMethod = ''POST'',
              headers = Some [(''Authorization'', ''Bearer t''), (''x-amzn-trace'', ''1'')],
              body = [(''params'', JObj [(''arguments'', JObj [])])]\<rparr>\<rparr>\<rparr>"

definition failing_console :: console where
  "failing_console label x =
     (if label = ''Propagated Headers:'' then Some (Thrown ''write EPIPE'') else None)"

text \<open>An input envelope whose only header is named \<^verbatim>\<open>__proto__\<close>.\<close>

definition proto_input :: InterceptorInput where
  "proto_input = \<lparr>interceptorInputVersion = ''1.0'',
     mcp = \<lparr>rawGatewayRequest = \<lparr>raw_body = ''{}''\<rparr>,
            gatewayRequest = \<lparr>path = ''/mcp'', httpMethod = ''POST'',
              headers = Some [(''__proto__'', ''x'')],
              body = []\<rparr>\<rparr>\<rparr>"

section \<open>Properties of the language's operations\<close>

lemma define_prop_fresh:
  "k \<notin> fst ` set obj \<Longrightarrow> define_prop k v obj = obj @ [(k, v)]"
  unfolding define_prop_def by (induction obj) auto

lemma map_of_define_prop: "map_of (define_prop k v obj) = (map_of obj)(k \<mapsto> v)"
  by (simp add: define_prop_def update_conv')

lemma keys_define_prop: "fst ` set (define_prop k v obj) = insert k (fst ` set obj)"
  by (simp add: define_prop_def dom_update)

lemma distinct_define_prop:
  "distinct (map fst obj) \<Longrightarrow> distinct (map fst (define_prop k v obj))"
  by (simp add: define_prop_def distinct_update)

lemma fold_define_prop_copy:
  "distinct (map fst xs) \<Longrightarrow> fst ` set xs \<inter> fst ` set acc = {} \<Longrightarrow>
   fold (\<lambda>(k, x). define_prop k x) xs acc = acc @ xs"
proof (induction xs arbitrary: acc)
  case Nil
  then show ?case by simp
next
  case (Cons p xs)
  obtain k v where p: "p = (k, v)" by (cases p)
  from Cons.prems p have fresh: "k \<notin> fst ` set acc" by auto
  from Cons.prems p have "fst ` set xs \<inter> fst ` set (acc @ [(k, v)]) = {}" by auto
  with Cons.IH [of "acc @ [(k, v)]"] Cons.prems p fresh show ?case
    by (simp add: define_prop_fresh)
qed

lemma map_of_fold_define_prop:
  "map_of (fold (\<lambda>(k, x). define_prop k x) xs acc) k =
     (case map_of (rev xs) k of Some v \<Rightarrow> Some v | None \<Rightarrow> map_of acc k)"
proof (induction xs arbitrary: acc)
  case Nil
  then show ?case by simp
next
  case (Cons p xs)
  obtain k' v where p: "p = (k', v)" by (cases p)
  show ?case
    using Cons.IH [of "define_prop k' v acc"] p
    by (simp add: map_of_define_prop map_add_def split: option.splits)
qed

lemma map_of_rev_distinct: "distinct (map fst xs) \<Longrightarrow> map_of (rev xs) = map_of xs"
proof (induction xs)
  case Nil
  then show ?case by simp
next
  case (Cons p xs)
  obtain k v where p: "p = (k, v)" by (cases p)
  from Cons.prems p have "map_of (rev xs) k = None"
    by (simp add: map_of_eq_None_iff)
  with Cons p show ?case
    by (auto simp: map_add_def fun_eq_iff split: option.splits)
qed

lemma digit_char_inj: "a < 10 \<Longrightarrow> b < 10 \<Longrightarrow> digit_char a = digit_char b \<Longrightarrow> a = b"
proof -
  assume a: "a < 10" and b: "b < 10" and eq: "digit_char a = digit_char b"
  have d: "distinct ''0123456789''" by simp
  from a b have "a < length ''0123456789''" "b < length ''0123456789''" by simp_all
  with d eq show "a = b" unfolding digit_char_def by (simp only: nth_eq_iff_index_eq)
qed

lemma show_nat_nonempty: "show_nat n \<noteq> []"
  by (subst show_nat.simps) simp

lemma show_nat_inj: "show_nat n = show_nat m \<Longrightarrow> n = m"
proof (induction n arbitrary: m rule: show_nat.induct)
  case (1 n)
  show ?case
  proof (cases "n < 10")
    case True
    show ?thesis
    proof (cases "m < 10")
      case mlt: True
      from "1.prems" True mlt have "digit_char n = digit_char m"
        by (simp add: show_nat.simps)
      with True mlt show ?thesis by (rule digit_char_inj)
    next
      case False
      with "1.prems" True have "[digit_char n] = show_nat (m div 10) @ [digit_char (m mod 10)]"
        by (simp add: show_nat.simps [of n] show_nat.simps [of m])
      then show ?thesis using show_nat_nonempty [of "m div 10"] by auto
    qed
  next
    case nge: False
    show ?thesis
    proof (cases "m < 10")
      case True
      with "1.prems" nge have "show_nat (n div 10) @ [digit_char (n mod 10)] = [digit_char m]"
        by (simp add: show_nat.simps [of n] show_nat.simps [of m])
      then show ?thesis using show_nat_nonempty [of "n div 10"] by auto
    next
      case False
      with "1.prems" nge have eq: "show_nat (n div 10) = show_nat (m div 10)"
        and dg: "digit_char (n mod 10) = digit_char (m mod 10)"
        by (simp_all add: show_nat.simps [of n] show_nat.simps [of m])
      from "1.IH" [OF nge eq] have "n div 10 = m div 10" .
      moreover from dg have "n mod 10 = m mod 10" by (rule digit_char_inj [rotated 2]) simp_all
      ultimately show ?thesis by (metis div_mult_mod_eq)
    qed
  qed
qed

lemma distinct_index_keys: "distinct (map show_nat [0..<n])"
  by (simp add: distinct_map inj_on_def) (blast dest: show_nat_inj)

lemma keys_zip_index: "length ks = length vs \<Longrightarrow> map fst (zip ks vs) = ks"
  by (simp add: map_fst_zip)

lemma distinct_own_props: "wf_json v \<Longrightarrow> distinct (map fst (own_props v))"
  by (cases v) (simp_all add: distinct_index_keys)

lemma spread_empty: "wf_json v \<Longrightarrow> spread v [] = own_props v"
  unfolding spread_def using fold_define_prop_copy [of "own_props v" "[]"]
  by (simp add: distinct_own_props)

lemma map_of_spread:
  "wf_json v \<Longrightarrow>
   map_of (spread v obj) k = (case map_of (own_props v) k of Some x \<Rightarrow> Some x | None \<Rightarrow> map_of obj k)"
  unfolding spread_def
  by (simp add: map_of_fold_define_prop map_of_rev_distinct distinct_own_props)

lemma wf_json_of_headers: "distinct (map fst P) \<Longrightarrow> wf_json (json_of_headers P)"
  by (auto simp: json_of_headers_def comp_def case_prod_beta)

lemma map_of_headers_props:
  "map_of (own_props (json_of_headers P)) k = map_option JStr (map_of P k)"
  by (induction P) (auto simp: json_of_headers_def)

lemma wf_lookup: "wf_json (JObj kvs) \<Longrightarrow> map_of kvs k = Some v \<Longrightarrow> wf_json v"
  by (auto dest!: map_of_SomeD simp: image_iff) 

lemma wf_or_empty_params: "wf_json (JObj B) \<Longrightarrow> wf_json (or_empty (map_of B k))"
  by (cases "map_of B k") (auto dest: wf_lookup)

lemma wf_or_empty_arguments: "wf_json v \<Longrightarrow> wf_json (or_empty (get_arguments v))"
  by (cases v; cases "get_arguments v") (auto dest: wf_lookup)

lemma falsy_no_props: "\<not> truthy v \<Longrightarrow> own_props v = []"
  by (cases v) auto

lemma falsy_no_arguments: "\<not> truthy v \<Longrightarrow> get_arguments v = None"
  by (cases v) auto

lemma props_or_empty: "map_of (own_props (or_empty x)) = fields x"
  by (cases x) (auto simp: fields_def falsy_no_props)

lemma arguments_or_empty: "get_arguments (or_empty x) = Option.bind x get_arguments"
  by (cases x) (auto simp: falsy_no_arguments)


section \<open>Header filtering\<close>

lemma prefix_key_inj [simp]: "prefix_key a = prefix_key b \<longleftrightarrow> a = b"
  by (simp add: prefix_key_def)

lemma assign_prefixed: "assign (prefix_key k) v obj = define_prop (prefix_key k) v obj"
  by (simp add: assign_def prefix_key_def)

lemma fold_filter_step:
  "distinct (map fst h) \<Longrightarrow> \<forall>k \<in> fst ` set h. prefix_key k \<notin> fst ` set acc \<Longrightarrow>
   fold filter_step h acc = acc @ prefixed h"
proof (induction h arbitrary: acc)
  case Nil
  then show ?case by (simp add: prefixed_def)
next
  case (Cons p h)
  obtain k v where p: "p = (k, v)" by (cases p)
  show ?case
  proof (cases "reserved k")
    case True
    with Cons.prems p have "fold filter_step h acc = acc @ prefixed h"
      by (intro Cons.IH) simp_all
    with True p show ?thesis
      by (simp add: filter_step_def prefixed_def reserved_def)
  next
    case False
    from Cons.prems p have fresh: "prefix_key k \<notin> fst ` set acc" by simp
    from Cons.prems p have d: "distinct (map fst h)" and nk: "k \<notin> fst ` set h" by simp_all
    from Cons.prems p nk
    have "\<forall>k' \<in> fst ` set h. prefix_key k' \<notin> fst ` set (acc @ [(prefix_key k, v)])"
      by auto
    with d have "fold filter_step h (acc @ [(prefix_key k, v)]) = (acc @ [(prefix_key k, v)]) @ prefixed h"
      by (rule Cons.IH)
    moreover from False p fresh have "filter_step p acc = acc @ [(prefix_key k, v)]"
      by (simp add: filter_step_def reserved_def assign_prefixed define_prop_fresh)
    moreover from False p have "prefixed (p # h) = (prefix_key k, v) # prefixed h"
      by (simp add: prefixed_def)
    ultimately show ?thesis by simp
  qed
qed

lemma filterAndPrefixHeaders_eq:
  "distinct (map fst h) \<Longrightarrow> filterAndPrefixHeaders (node_console limit) (Some h) = Inr (prefixed h)"
  using fold_filter_step [of h "[]"]
  by (simp add: filterAndPrefixHeaders_def node_console_def)

lemma map_of_prefixed:
  "map_of (prefixed h) k' = Some v \<longleftrightarrow>
     (\<exists>k. k' = prefix_key k \<and> \<not> reserved k \<and> map_of h k = Some v)"
proof (induction h)
  case Nil
  then show ?case by (simp add: prefixed_def)
next
  case (Cons p h)
  obtain k0 v0 where p: "p = (k0, v0)" by (cases p)
  show ?case
  proof (cases "reserved k0")
    case True
    then have "prefixed (p # h) = prefixed h" by (simp add: prefixed_def p)
    with Cons True p show ?thesis by auto
  next
    case False
    then have "prefixed (p # h) = (prefix_key k0, v0) # prefixed h" by (simp add: prefixed_def p)
    with Cons False p show ?thesis by auto
  qed
qed

lemma keys_prefixed: "k' \<in> fst ` set (prefixed h) \<Longrightarrow> \<exists>k \<in> fst ` set h. k' = prefix_key k"
  by (force simp: prefixed_def)

lemma distinct_prefixed: "distinct (map fst h) \<Longrightarrow> distinct (map fst (prefixed h))"
proof (induction h)
  case Nil
  then show ?case by (simp add: prefixed_def)
next
  case (Cons p h)
  obtain k0 v0 where p: "p = (k0, v0)" by (cases p)
  from Cons p have d: "distinct (map fst (prefixed h))" and nk: "k0 \<notin> fst ` set h" by simp_all
  show ?case
  proof (cases "reserved k0")
    case True
    then have "prefixed (p # h) = prefixed h" by (simp add: prefixed_def p)
    with d show ?thesis by simp
  next
    case False
    then have e: "prefixed (p # h) = (prefix_key k0, v0) # prefixed h" by (simp add: prefixed_def p)
    have "prefix_key k0 \<notin> fst ` set (prefixed h)"
      using nk keys_prefixed [of "prefix_key k0" h] by auto
    with d e show ?thesis by simp
  qed
qed

lemma length_prefixed:
  "length (prefixed h) = length h - length (filter (\<lambda>(k, v). reserved k) h)"
proof -
  have "length (prefixed h) + length (filter (\<lambda>(k, v). reserved k) h) = length h"
    by (induction h) (auto simp: prefixed_def)
  then show ?thesis by simp
qed

lemma not_reserved_prefix_key: "\<not> reserved (prefix_key k)"
  by (simp add: reserved_def prefix_key_def startsWith_def toLowerCase_def lower_char_def)

lemma prefixed_all_kept:
  "\<forall>k \<in> fst ` set h. \<not> reserved k \<Longrightarrow> prefixed h = map (\<lambda>(k, v). (prefix_key k, v)) h"
  by (induction h) (auto simp: prefixed_def)

lemma prefixed_twice: "prefixed (prefixed h) = map (\<lambda>(k, v). (prefix_key k, v)) (prefixed h)"
proof (rule prefixed_all_kept)
  show "\<forall>k \<in> fst ` set (prefixed h). \<not> reserved k"
  proof
    fix k assume "k \<in> fst ` set (prefixed h)"
    then obtain k0 where "k = prefix_key k0" using keys_prefixed by blast
    then show "\<not> reserved k" by (simp add: not_reserved_prefix_key)
  qed
qed

lemma r1: "filterAndPrefixHeaders (node_console limit) (Some [(''Authorization'', ''Bearer t'')]) = Inr [(''mcp_header_Authorization'', ''Bearer t'')]"
    by (simp add: filterAndPrefixHeaders_def node_console_def filter_step_def assign_def
        define_prop_def prefix_key_def startsWith_def toLowerCase_def lower_char_def)

lemma r2: "filterAndPrefixHeaders (node_console limit) (Some [(''mcp_header_Authorization'', ''Bearer t'')]) =
      Inr [(''mcp_header_mcp_header_Authorization'', ''Bearer t'')]"
    by (simp add: filterAndPrefixHeaders_def node_console_def filter_step_def assign_def
        define_prop_def prefix_key_def startsWith_def toLowerCase_def lower_char_def)

lemma recompound:
  assumes "distinct (map fst H)" and "filterAndPrefixHeaders (node_console limit) (Some H) = Inr R"
  shows "filterAndPrefixHeaders (node_console limit) (Some R) = Inr (map (\<lambda>(k, v). (prefix_key k, v)) R)"
proof -
  from assms have R: "R = prefixed H" by (simp add: filterAndPrefixHeaders_eq)
  from assms(1) have "distinct (map fst (prefixed H))" by (rule distinct_prefixed)
  then have "filterAndPrefixHeaders (node_console limit) (Some (prefixed H)) = Inr (prefixed (prefixed H))"
    by (rule filterAndPrefixHeaders_eq)
  then show ?thesis unfolding R by (simp only: prefixed_twice)
qed

lemma filter_step_keys:
  "k \<in> fst ` set (fold filter_step h acc) \<Longrightarrow> k \<in> fst ` set acc \<or> (\<exists>k0. k = prefix_key k0)"
proof (induction h arbitrary: acc)
  case Nil
  then show ?case by simp
next
  case (Cons p h)
  obtain k0 v where p: "p = (k0, v)" by (cases p)
  from Cons.prems have "k \<in> fst ` set (fold filter_step h (filter_step p acc))" by simp
  then have "k \<in> fst ` set (filter_step p acc) \<or> (\<exists>k0. k = prefix_key k0)" by (rule Cons.IH)
  then show ?case
    by (auto simp: p filter_step_def assign_prefixed keys_define_prop split: if_splits)
qed

lemma filter_step_distinct:
  "distinct (map fst acc) \<Longrightarrow> distinct (map fst (fold filter_step h acc))"
proof (induction h arbitrary: acc)
  case Nil
  then show ?case by simp
next
  case (Cons p h)
  obtain k0 v where p: "p = (k0, v)" by (cases p)
  from Cons.prems have "distinct (map fst (filter_step p acc))"
    by (simp add: p filter_step_def assign_prefixed distinct_define_prop)
  then have "distinct (map fst (fold filter_step h (filter_step p acc)))" by (rule Cons.IH)
  then show ?case by simp
qed

lemma filterAndPrefixHeaders_result:
  assumes "filterAndPrefixHeaders (node_console limit) hs = Inr P"
  shows "distinct (map fst P)" and "\<And>k. k \<in> fst ` set P \<Longrightarrow> startsWith k ''mcp_header_''"
proof -
  show "distinct (map fst P)"
    using assms filter_step_distinct [of "[]"]
    by (cases hs) (auto simp: filterAndPrefixHeaders_def node_console_def)
  fix k assume k: "k \<in> fst ` set P"
  have "\<exists>k0. k = prefix_key k0"
  proof (cases hs)
    case None
    with assms k show ?thesis by (simp add: filterAndPrefixHeaders_def)
  next
    case (Some h)
    with assms have "P = fold filter_step h []"
      by (simp add: filterAndPrefixHeaders_def node_console_def)
    with k filter_step_keys [of k h "[]"] show ?thesis by simp
  qed
  then show "startsWith k ''mcp_header_''"
    by (auto simp: prefix_key_def startsWith_def)
qed

section \<open>Header propagation\<close>

lemma forward_all_fresh:
  "distinct (map fst h) \<Longrightarrow> fst ` set h \<inter> fst ` set acc = {} \<Longrightarrow>
   forward_all h acc = acc @ forwarded h"
proof (induction h arbitrary: acc)
  case Nil
  then show ?case by (simp add: forward_all_def forwarded_def)
next
  case (Cons p h)
  obtain k v where p: "p = (k, v)" by (cases p)
  from Cons.prems p have d: "distinct (map fst h)" and nk: "k \<notin> fst ` set h"
    and fresh: "k \<notin> fst ` set acc" and dis: "fst ` set h \<inter> fst ` set acc = {}" by auto
  show ?case
  proof (cases "k = ''__proto__''")
    case True
    from d dis have "forward_all h acc = acc @ forwarded h" by (rule Cons.IH)
    with True p show ?thesis by (simp add: forward_all_def forwarded_def assign_def)
  next
    case False
    from dis nk have "fst ` set h \<inter> fst ` set (acc @ [(k, v)]) = {}" by auto
    with d have "forward_all h (acc @ [(k, v)]) = (acc @ [(k, v)]) @ forwarded h" by (rule Cons.IH)
    with False p fresh show ?thesis
      by (simp add: forward_all_def forwarded_def assign_def define_prop_fresh)
  qed
qed

lemma map_of_forward_all:
  "map_of (forward_all h acc) k =
     (if k = ''__proto__'' then map_of acc k
      else case map_of (rev h) k of Some v \<Rightarrow> Some v | None \<Rightarrow> map_of acc k)"
proof (induction h arbitrary: acc)
  case Nil
  then show ?case by (simp add: forward_all_def)
next
  case (Cons p h)
  obtain k' v where p: "p = (k', v)" by (cases p)
  have step: "forward_all (p # h) acc = forward_all h (assign k' v acc)"
    by (simp add: forward_all_def p)
  show ?case
    unfolding step Cons.IH
    by (simp add: p assign_def map_of_define_prop map_add_def split: option.splits)
qed

lemma propagateHeaders_lookup:
  assumes "distinct (map fst H1)" and "distinct (map fst H2)"
  shows "\<exists>R. propagateHeaders (node_console limit) (Some H1) (Some H2) = Inr R \<and>
           (\<forall>k. map_of R k =
              (if k = ''__proto__'' then None
               else case map_of H2 k of Some v \<Rightarrow> Some v | None \<Rightarrow> map_of H1 k))"
  using assms
  by (simp add: propagateHeaders_def node_console_def Let_def map_of_forward_all
      map_of_rev_distinct split: option.splits)

lemma propagateHeaders_incoming:
  "distinct (map fst H) \<Longrightarrow> propagateHeaders (node_console limit) (Some H) None = Inr (forwarded H)"
  using forward_all_fresh [of H "[]"]
  by (simp add: propagateHeaders_def node_console_def)

lemma propagateHeaders_absent: "propagateHeaders (node_console limit) None None = Inr []"
  by (simp add: propagateHeaders_def node_console_def)

section \<open>The handler\<close>


lemma and_then_Inl: "and_then x r = Inl e \<longleftrightarrow> x = Some e \<or> (x = None \<and> r = Inl e)"
  by (cases x) auto


lemma bind_result_Inl: "bind_result m k = Inl e \<longleftrightarrow> m = Inl e \<or> (\<exists>v. m = Inr v \<and> k v = Inl e)"
  by (cases m) auto

lemma node_console_headers [simp]: "node_console limit l (LHeaders hs) = None"
  by (cases hs) (simp_all add: node_console_def)

lemma node_console_text [simp]: "node_console limit l (LText s) = None"
  by (simp add: node_console_def)

lemma propagateHeaders_run:
  "propagateHeaders c hs ha =
     (case c ''Propagated Headers:''
             (LHeaders (Some (forward_all (incoming ha) (forward_all (incoming hs) [])))) of
        Some e \<Rightarrow> Inl e
      | None \<Rightarrow> Inr (forward_all (incoming ha) (forward_all (incoming hs) [])))"
  by (cases hs; cases ha)
     (simp_all add: propagateHeaders_def incoming_def forward_all_def Let_def split: option.splits)

lemma filterAndPrefixHeaders_run:
  "filterAndPrefixHeaders c hs =
     (case hs of
        None \<Rightarrow> Inr []
      | Some h \<Rightarrow>
          (case c ''Filtered and Prefixed Headers:'' (LHeaders (Some (fold filter_step h []))) of
             Some e \<Rightarrow> Inl e
           | None \<Rightarrow> Inr (fold filter_step h [])))"
  by (simp add: filterAndPrefixHeaders_def Let_def split: option.splits)

lemma handleInterceptorRequest_run:
  "handleInterceptorRequest c i =
     (case first_throw c (statements i) of
        Some e \<Rightarrow> Inl e
      | None \<Rightarrow> Inr (transformed i))"
proof (cases "headers (gatewayRequest (mcp i))")
  case None
  then show ?thesis
    by (simp add: handleInterceptorRequest_def statements_def transformed_def Let_def
        propagateHeaders_run filterAndPrefixHeaders_run incoming_def forward_all_def
        split: option.splits)
next
  case (Some h)
  then show ?thesis
    by (simp add: handleInterceptorRequest_def statements_def transformed_def Let_def
        propagateHeaders_run filterAndPrefixHeaders_run incoming_def forward_all_def
        split: option.splits)
qed

lemma propagateHeaders_total:
  "\<exists>R. propagateHeaders (node_console limit) hs ha = Inr R"
  by (simp add: propagateHeaders_run)

lemma filterAndPrefixHeaders_total:
  "\<exists>R. filterAndPrefixHeaders (node_console limit) hs = Inr R"
  by (cases hs) (simp_all add: filterAndPrefixHeaders_run)

lemma propagateHeaders_Inr:
  "propagateHeaders c hs ha = Inr R \<Longrightarrow> propagateHeaders (node_console limit) hs ha = Inr R"
  by (simp add: propagateHeaders_run split: option.splits)

lemma filterAndPrefixHeaders_Inr:
  "filterAndPrefixHeaders c hs = Inr R \<Longrightarrow> filterAndPrefixHeaders (node_console limit) hs = Inr R"
  by (simp add: filterAndPrefixHeaders_run split: option.splits)

lemma handleInterceptorRequest_Inr:
  "handleInterceptorRequest c i = Inr out \<longleftrightarrow>
     first_throw c (statements i) = None \<and> out = transformed i"
  by (auto simp: handleInterceptorRequest_run split: option.splits)

lemma handleInterceptorRequest_Inl:
  "handleInterceptorRequest c i = Inl e \<longleftrightarrow> first_throw c (statements i) = Some e"
  by (auto simp: handleInterceptorRequest_run split: option.splits)

lemma first_throw_append:
  "first_throw c (xs @ ys) =
     (case first_throw c xs of Some e \<Rightarrow> Some e | None \<Rightarrow> first_throw c ys)"
  by (induction xs) (auto split: option.splits)

lemma first_throw_None: "first_throw c xs = None \<longleftrightarrow> (\<forall>(l, x) \<in> set xs. c l x = None)"
  by (induction xs) (auto split: option.splits)

lemma first_throw_Some: "first_throw c xs = Some e \<Longrightarrow> \<exists>(l, x) \<in> set xs. c l x = Some e"
  by (induction xs) (auto split: option.splits)

lemma json_depth_nested [simp]: "json_depth (nested n) = n"
  by (induction n) simp_all


lemma forwarded_id: "''__proto__'' \<notin> fst ` set H \<Longrightarrow> forwarded H = H"
  by (induction H) (auto simp: forwarded_def)

lemma transformed_headers:
  "t_headers (transformedGatewayRequest (mcp_out (transformed input))) =
     Some (forward_all (incoming (headers (gatewayRequest (mcp input)))) [])"
  by (simp add: transformed_def Let_def)

lemma transformed_body:
  "t_body (transformedGatewayRequest (mcp_out (transformed input))) =
     mergeBody (body (gatewayRequest (mcp input)))
       (fold filter_step (incoming (headers (gatewayRequest (mcp input)))) [])"
  by (simp add: transformed_def Let_def)

lemma propagateHeaders_forward_all:
  "propagateHeaders (node_console limit) hs None = Inr (forward_all (incoming hs) [])"
  by (simp add: propagateHeaders_run incoming_def forward_all_def)

lemma headers_forwarded:
  assumes "headers (gatewayRequest (mcp input)) = Some H" and "distinct (map fst H)"
    and "''__proto__'' \<notin> fst ` set H"
  shows "t_headers (transformedGatewayRequest (mcp_out (transformed input))) = Some H"
proof -
  from assms have "propagateHeaders (node_console 0) (Some H) None = Inr H"
    by (simp add: propagateHeaders_incoming forwarded_id)
  then have "forward_all H [] = H"
    by (simp add: propagateHeaders_forward_all incoming_def)
  with assms show ?thesis by (simp add: transformed_headers incoming_def)
qed

lemma headers_absent:
  assumes "headers (gatewayRequest (mcp input)) = None"
  shows "t_headers (transformedGatewayRequest (mcp_out (transformed input))) = Some []"
  using assms by (simp add: transformed_headers incoming_def forward_all_def)

lemma filterAndPrefixHeaders_fold:
  "filterAndPrefixHeaders (node_console limit) hs = Inr (fold filter_step (incoming hs) [])"
  by (cases hs) (simp_all add: filterAndPrefixHeaders_run incoming_def)



section \<open>Body reshaping\<close>

lemma mergeBody_parts:
  assumes "wf_json (JObj B)" and "distinct (map fst P)"
  shows "(\<forall>k. k \<noteq> ''params'' \<longrightarrow> map_of (mergeBody B P) k = map_of B k) \<and>
         (\<exists>pm am. map_of (mergeBody B P) ''params'' = Some (JObj pm) \<and>
            (\<forall>k. k \<noteq> ''arguments'' \<longrightarrow> map_of pm k = fields (map_of B ''params'') k) \<and>
            map_of pm ''arguments'' = Some (JObj am) \<and>
            (\<forall>k. map_of am k =
               (case map_of P k of
                  Some v \<Rightarrow> Some (JStr v)
                | None \<Rightarrow> fields (Option.bind (map_of B ''params'') get_arguments) k)))"
proof -
  let ?params = "or_empty (map_of B ''params'')"
  let ?args = "or_empty (get_arguments ?params)"
  let ?am = "spread (json_of_headers P) (spread ?args [])"
  let ?pm = "define_prop ''arguments'' (JObj ?am) (spread ?params [])"
  have wp: "wf_json ?params" using assms(1) by (rule wf_or_empty_params)
  have wa: "wf_json ?args" using wp by (rule wf_or_empty_arguments)
  have m: "mergeBody B P = define_prop ''params'' (JObj ?pm) B"
    using assms(1) spread_empty [of "JObj B"] by (simp add: mergeBody_def Let_def)
  have top: "\<forall>k. k \<noteq> ''params'' \<longrightarrow> map_of (mergeBody B P) k = map_of B k"
    by (simp add: m map_of_define_prop)
  have p1: "map_of (mergeBody B P) ''params'' = Some (JObj ?pm)"
    by (simp add: m map_of_define_prop)
  have p2: "\<forall>k. k \<noteq> ''arguments'' \<longrightarrow> map_of ?pm k = fields (map_of B ''params'') k"
    using wp by (simp add: map_of_define_prop spread_empty props_or_empty)
  have p3: "map_of ?pm ''arguments'' = Some (JObj ?am)"
    by (simp add: map_of_define_prop)
  have p4: "\<forall>k. map_of ?am k =
               (case map_of P k of
                  Some v \<Rightarrow> Some (JStr v)
                | None \<Rightarrow> fields (Option.bind (map_of B ''params'') get_arguments) k)"
    using wa assms(2)
    by (simp add: map_of_spread wf_json_of_headers map_of_headers_props spread_empty
        props_or_empty arguments_or_empty split: option.splits)
  from top p1 p2 p3 p4 show ?thesis by blast
qed


lemma mergeBody_arguments_kept:
  assumes wf: "wf_json (JObj B)" and d: "distinct (map fst P)"
    and pk: "\<And>k. k \<in> fst ` set P \<Longrightarrow> startsWith k ''mcp_header_''"
  shows "\<exists>pm am. map_of (mergeBody B P) ''params'' = Some (JObj pm) \<and>
           map_of pm ''arguments'' = Some (JObj am) \<and>
           (\<forall>k v. fields (Option.bind (map_of B ''params'') get_arguments) k = Some v \<and>
                  \<not> startsWith k ''mcp_header_'' \<longrightarrow> map_of am k = Some v)"
proof -
  from mergeBody_parts [OF wf d] obtain pm am where
    p: "map_of (mergeBody B P) ''params'' = Some (JObj pm)" and
    a: "map_of pm ''arguments'' = Some (JObj am)" and
    af: "\<forall>k. map_of am k = (case map_of P k of Some v \<Rightarrow> Some (JStr v)
            | None \<Rightarrow> fields (Option.bind (map_of B ''params'') get_arguments) k)"
    by blast
  have "\<forall>k v. fields (Option.bind (map_of B ''params'') get_arguments) k = Some v \<and>
                  \<not> startsWith k ''mcp_header_'' \<longrightarrow> map_of am k = Some v"
  proof (intro allI impI)
    fix k v
    assume h: "fields (Option.bind (map_of B ''params'') get_arguments) k = Some v \<and>
                  \<not> startsWith k ''mcp_header_''"
    with pk have "k \<notin> fst ` set P" by blast
    then have "map_of P k = None" by (simp add: map_of_eq_None_iff)
    with af h show "map_of am k = Some v" by simp
  qed
  with p a show ?thesis by blast
qed

lemma map_of_drop_prop: "map_of (drop_prop k obj) = (map_of obj)(k := None)"
  by (induction obj) (auto simp: drop_prop_def)

lemma wf_drop_prop: "wf_json (JObj obj) \<Longrightarrow> wf_json (JObj (drop_prop k obj))"
  by (auto simp: drop_prop_def distinct_map_filter)

lemma wf_define_prop: "wf_json (JObj obj) \<Longrightarrow> wf_json v \<Longrightarrow> wf_json (JObj (define_prop k v obj))"
proof (induction obj)
  case Nil
  then show ?case by (simp add: define_prop_def)
next
  case (Cons p obj)
  then show ?case
    by (auto simp: define_prop_def dom_update image_iff)
qed

lemma mergeBody_eq:
  "wf_json (JObj B) \<Longrightarrow>
   mergeBody B P =
     define_prop ''params''
       (JObj (define_prop ''arguments''
          (JObj (spread (json_of_headers P)
             (own_props (or_empty (get_arguments (or_empty (map_of B ''params'')))))))
          (own_props (or_empty (map_of B ''params''))))) B"
proof -
  assume wf: "wf_json (JObj B)"
  then have wp: "wf_json (or_empty (map_of B ''params''))" by (rule wf_or_empty_params)
  then have wa: "wf_json (or_empty (get_arguments (or_empty (map_of B ''params''))))"
    by (rule wf_or_empty_arguments)
  from wf wp wa show ?thesis
    using spread_empty [of "JObj B"] by (simp add: mergeBody_def Let_def spread_empty)
qed

lemma empty_value_params:
  assumes "\<not> is_object v" and "own_props v = []"
  shows "own_props (or_empty (Some v)) = []" and "get_arguments (or_empty (Some v)) = None"
  using assms by (cases v; simp)+

lemma params_as_absent:
  assumes wf: "wf_json (JObj B)" and v: "\<not> is_object v" "own_props v = []"
    and l: "map_of B ''params'' = Some v"
  shows "map_of (mergeBody B P) = map_of (mergeBody (drop_prop ''params'' B) P)"
proof -
  let ?B' = "drop_prop ''params'' B"
  have wf': "wf_json (JObj ?B')" using wf by (rule wf_drop_prop)
  have n: "map_of ?B' ''params'' = None" by (simp add: map_of_drop_prop)
  have "mergeBody B P = define_prop ''params''
          (JObj (define_prop ''arguments'' (JObj (spread (json_of_headers P) [])) [])) B"
    using mergeBody_eq [OF wf, of P] empty_value_params [OF v] by (simp add: l)
  moreover have "mergeBody ?B' P = define_prop ''params''
          (JObj (define_prop ''arguments'' (JObj (spread (json_of_headers P) [])) [])) ?B'"
    using mergeBody_eq [OF wf', of P] by (simp add: n)
  ultimately show ?thesis
    by (simp add: map_of_define_prop map_of_drop_prop)
qed

lemma arguments_as_absent:
  assumes wf: "wf_json (JObj B)" and v: "\<not> is_object v" "own_props v = []"
    and l: "map_of B ''params'' = Some (JObj ps)" and a: "map_of ps ''arguments'' = Some v"
  shows "\<exists>pm pm'.
     map_of (mergeBody B P) ''params'' = Some (JObj pm) \<and>
     map_of (mergeBody (define_prop ''params'' (JObj (drop_prop ''arguments'' ps)) B) P) ''params'' =
       Some (JObj pm') \<and>
     map_of pm = map_of pm' \<and>
     (\<forall>k. k \<noteq> ''params'' \<longrightarrow>
        map_of (mergeBody B P) k =
        map_of (mergeBody (define_prop ''params'' (JObj (drop_prop ''arguments'' ps)) B) P) k)"
proof -
  let ?ps' = "drop_prop ''arguments'' ps"
  let ?B' = "define_prop ''params'' (JObj ?ps') B"
  let ?A = "JObj (spread (json_of_headers P) [])"
  have wps: "wf_json (JObj ps)" using wf l by (rule wf_lookup)
  then have wps': "wf_json (JObj ?ps')" by (rule wf_drop_prop)
  with wf have wf': "wf_json (JObj ?B')" by (rule wf_define_prop)
  have l': "map_of ?B' ''params'' = Some (JObj ?ps')" by (simp add: map_of_define_prop)
  have n: "map_of ?ps' ''arguments'' = None" by (simp add: map_of_drop_prop)
  have m: "mergeBody B P = define_prop ''params'' (JObj (define_prop ''arguments'' ?A ps)) B"
    using mergeBody_eq [OF wf, of P] empty_value_params(1) [OF v] by (simp add: l a)
  have m': "mergeBody ?B' P = define_prop ''params'' (JObj (define_prop ''arguments'' ?A ?ps')) ?B'"
    using mergeBody_eq [OF wf', of P] by (simp add: l' n)
  have 1: "map_of (mergeBody B P) ''params'' = Some (JObj (define_prop ''arguments'' ?A ps))"
    by (simp add: m map_of_define_prop)
  have 2: "map_of (mergeBody ?B' P) ''params'' = Some (JObj (define_prop ''arguments'' ?A ?ps'))"
    by (simp add: m' map_of_define_prop)
  have 3: "map_of (define_prop ''arguments'' ?A ps) = map_of (define_prop ''arguments'' ?A ?ps')"
    by (simp add: map_of_define_prop map_of_drop_prop)
  have 4: "\<forall>k. k \<noteq> ''params'' \<longrightarrow> map_of (mergeBody B P) k = map_of (mergeBody ?B' P) k"
    by (simp add: m m' map_of_define_prop)
  from 1 2 3 4 show ?thesis by blast
qed


lemma node_console_returns:
  assumes "logged_depth (LInput i) \<le> Suc limit"
    and "logged_depth (LOutput (transformed i)) \<le> Suc limit"
  shows "first_throw (node_console limit) (statements i) = None"
  using assms
  by (cases "headers (gatewayRequest (mcp i))")
     (simp_all add: statements_def Let_def node_console_def)

subsection \<open>Nesting\<close>

lemma fold_max_le: "fold max xs a \<le> (n::nat) \<longleftrightarrow> a \<le> n \<and> (\<forall>x \<in> set xs. x \<le> n)"
  by (induction xs arbitrary: a) auto


lemma depth_arr_le:
  "json_depth (JArr vs) \<le> Suc n \<longleftrightarrow> (\<forall>v \<in> set vs. json_depth v \<le> n)"
  by (simp add: fold_max_le)










section \<open>The store\<close>

lemma length_store_prop [simp]: "length (store_prop t k v h) = length h"
  by (simp add: store_prop_def split: cell.splits)








lemma val_field_append:
  "a < length h \<Longrightarrow> val_field (h @ e) (Some (VRef a)) k = val_field h (Some (VRef a)) k"
  by (simp add: nth_append)

lemma val_field_new:
  "val_field (h @ Obj kvs # e) (Some (VRef (length h))) k = map_of kvs k"
  by simp


lemma val_field_at:
  "i < length cells \<Longrightarrow> cells ! i = Obj kvs \<Longrightarrow>
   val_field (pre @ cells) (Some (VRef (length pre + i))) k = map_of kvs k"
  by (simp add: nth_append)

lemma output_heap_result:
  "output_heap hdrs merged h =
     (h @ [Obj [(''headers'', VRef hdrs), (''body'', VRef merged)],
           Obj [(''transformedGatewayRequest'', VRef (length h))],
           Obj [(''interceptorOutputVersion'', VStr ''1.0''), (''mcp'', VRef (Suc (length h)))]],
      Suc (Suc (length h)))"
  by (simp add: output_heap_def alloc_def)












lemma ref_fieldD: "ref_field h a k = Some r \<Longrightarrow> val_field h (Some (VRef a)) k = Some (VRef r)"
  unfolding ref_field_def by (cases "val_field h (Some (VRef a)) k") (auto split: val.splits)



section \<open>The store computes what the values compute\<close>

lemma rep_extend: "rep h v j \<Longrightarrow> rep (h @ e) v j"
proof (induction j arbitrary: v)
  case (JArr js)
  then obtain a vs where v: "v = VRef a" and a: "a < length h" and c: "h ! a = Arr vs"
    and l: "list_all2 (\<lambda>x j. rep h x j) vs js"
    by (auto split: val.splits cell.splits)
  have "list_all2 (\<lambda>x j. rep (h @ e) x j) vs js"
    using l JArr.IH by (auto simp: list_all2_conv_all_nth)
  with v a c show ?case by (simp add: nth_append)
next
  case (JObj jkvs)
  then obtain a kvs where v: "v = VRef a" and a: "a < length h" and c: "h ! a = Obj kvs"
    and l: "list_all2 (entry_rep h) kvs jkvs"
    by (auto split: val.splits cell.splits)
  have "list_all2 (entry_rep (h @ e)) kvs jkvs"
    unfolding list_all2_conv_all_nth
  proof (intro conjI allI impI)
    show "length kvs = length jkvs" using l by (rule list_all2_lengthD)
    fix i assume i: "i < length kvs"
    with l have e: "fst (kvs ! i) = fst (jkvs ! i)" and r: "rep h (snd (kvs ! i)) (snd (jkvs ! i))"
      by (auto simp: list_all2_conv_all_nth)
    from i l have "jkvs ! i \<in> set jkvs" by (auto dest: list_all2_lengthD)
    moreover have "snd (jkvs ! i) \<in> Basic_BNFs.snds (jkvs ! i)"
      by (cases "jkvs ! i") simp
    ultimately have "rep (h @ e) (snd (kvs ! i)) (snd (jkvs ! i))" using r by (rule JObj.IH)
    with e show "fst (kvs ! i) = fst (jkvs ! i)" and "rep (h @ e) (snd (kvs ! i)) (snd (jkvs ! i))"
      by simp_all
  qed
  with v a c show ?case by (simp add: nth_append)
qed simp_all

lemma entries_extend: "list_all2 (entry_rep h) kvs jkvs \<Longrightarrow> list_all2 (entry_rep (h @ e)) kvs jkvs"
  by (erule list_all2_mono) (auto intro: rep_extend)

lemma rep_truthy: "rep h v j \<Longrightarrow> val_truthy (Some v) = truthy j"
  by (cases j) (auto split: val.splits)

lemma index_entries:
  "list_all2 r vs js \<Longrightarrow>
   list_all2 (\<lambda>p q. fst p = fst q \<and> r (snd p) (snd q))
     (zip (map show_nat [0..<length vs]) vs) (zip (map show_nat [0..<length js]) js)"
  by (auto simp: list_all2_conv_all_nth)

lemma props_rep: "rep h v j \<Longrightarrow> list_all2 (entry_rep h) (val_props h (Some v)) (own_props j)"
proof (cases j)
  case (JArr js)
  assume "rep h v j"
  with JArr obtain a vs where v: "v = VRef a" and a: "a < length h" and c: "h ! a = Arr vs"
    and l: "list_all2 (\<lambda>x j. rep h x j) vs js"
    by (auto split: val.splits cell.splits)
  from index_entries [OF l] v a c JArr show ?thesis by simp
next
  case (JObj jkvs)
  assume "rep h v j"
  with JObj show ?thesis by (auto split: val.splits cell.splits)
next
  case (JStr s)
  assume "rep h v j"
  with JStr show ?thesis by (auto simp: list_all2_conv_all_nth)
qed auto

lemma define_prop_rep:
  "list_all2 (entry_rep h) kvs jkvs \<Longrightarrow> rep h v j \<Longrightarrow>
   list_all2 (entry_rep h) (define_prop k v kvs) (define_prop k j jkvs)"
  unfolding define_prop_def
  by (induction kvs jkvs rule: list_all2_induct) auto

lemma fold_define_prop_rep:
  "list_all2 (entry_rep h) xs ys \<Longrightarrow> list_all2 (entry_rep h) acc acc' \<Longrightarrow>
   list_all2 (entry_rep h) (fold (\<lambda>(k, x). define_prop k x) xs acc)
                            (fold (\<lambda>(k, x). define_prop k x) ys acc')"
proof (induction xs ys arbitrary: acc acc' rule: list_all2_induct)
  case Nil
  then show ?case by simp
next
  case (Cons p xs q ys)
  obtain k v where p: "p = (k, v)" by (cases p)
  obtain k' j where q: "q = (k', j)" by (cases q)
  from Cons.hyps p q have k: "k' = k" and r: "rep h v j" by simp_all
  from Cons.prems r have "list_all2 (entry_rep h) (define_prop k v acc) (define_prop k j acc')"
    by (rule define_prop_rep)
  then show ?case using Cons.IH p q k by simp
qed

lemma copy_props_rep:
  "rep h v j \<Longrightarrow> list_all2 (entry_rep h) acc acc' \<Longrightarrow>
   list_all2 (entry_rep h) (copy_props h (Some v) acc) (spread j acc')"
  unfolding copy_props_def spread_def
  by (rule fold_define_prop_rep [OF props_rep])

lemma map_of_rep:
  "list_all2 (entry_rep h) kvs jkvs \<Longrightarrow> rel_option (rep h) (map_of kvs k) (map_of jkvs k)"
  by (induction kvs jkvs rule: list_all2_induct) auto

lemma alloc_rep:
  "list_all2 (entry_rep h) kvs jkvs \<Longrightarrow> rep (h @ [Obj kvs]) (VRef (length h)) (JObj jkvs)"
  using entries_extend [of h kvs jkvs "[Obj kvs]"] by simp

lemma header_entries_any_heap:
  "list_all2 (entry_rep h) xs (header_entries H) \<Longrightarrow> list_all2 (entry_rep h') xs (header_entries H)"
  by (auto simp: list_all2_conv_all_nth case_prod_beta)

lemma header_entries_define:
  "header_entries (define_prop k s acc) = define_prop k (JStr s) (header_entries acc)"
  unfolding define_prop_def by (induction acc) auto

lemma fold_assign_heap:
  "fold (\<lambda>(key, val). assign_heap (length h) key val) xs (h @ [Obj kvs]) =
   h @ [Obj (fold (\<lambda>(key, val) ob. if key = ''__proto__'' then ob else define_prop key val ob) xs kvs)]"
proof (induction xs arbitrary: kvs)
  case Nil
  then show ?case by simp
next
  case (Cons p xs)
  obtain k v where p: "p = (k, v)" by (cases p)
  have "assign_heap (length h) k v (h @ [Obj kvs]) =
        h @ [Obj (if k = ''__proto__'' then kvs else define_prop k v kvs)]"
    by (simp add: assign_heap_def store_prop_def)
  with Cons.IH p show ?case by simp
qed

lemma forward_all_rep:
  "list_all2 (entry_rep h) xs (header_entries H) \<Longrightarrow>
   list_all2 (entry_rep h) kvs (header_entries acc) \<Longrightarrow>
   list_all2 (entry_rep h)
     (fold (\<lambda>(key, val) ob. if key = ''__proto__'' then ob else define_prop key val ob) xs kvs)
     (header_entries (forward_all H acc))"
proof (induction H arbitrary: xs kvs acc)
  case Nil
  then show ?case by (simp add: forward_all_def)
next
  case (Cons q H)
  obtain k s where q: "q = (k, s)" by (cases q)
  from Cons.prems(1) q obtain v xs' where xs: "xs = (k, v) # xs'" and v: "rep h v (JStr s)"
    and rest: "list_all2 (entry_rep h) xs' (header_entries H)"
    by (cases xs) auto
  have step: "list_all2 (entry_rep h)
      (if k = ''__proto__'' then kvs else define_prop k v kvs)
      (header_entries (assign k s acc))"
    using Cons.prems(2) v define_prop_rep [of h kvs "header_entries acc" v "JStr s" k]
    by (simp add: assign_def header_entries_define)
  have "forward_all (q # H) acc = forward_all H (assign k s acc)"
    by (simp add: forward_all_def q)
  with Cons.IH [OF rest step] xs show ?case by simp
qed

lemma filter_step_heap_fold:
  "fold (filter_step_heap (length h)) xs (h @ [Obj kvs]) =
   h @ [Obj (fold (\<lambda>(key, val) ob.
               if startsWith (toLowerCase key) ''x-amzn'' then ob
               else define_prop (prefix_key key) val ob) xs kvs)]"
proof (induction xs arbitrary: kvs)
  case Nil
  then show ?case by simp
next
  case (Cons p xs)
  obtain k v where p: "p = (k, v)" by (cases p)
  have "filter_step_heap (length h) p (h @ [Obj kvs]) =
        h @ [Obj (if startsWith (toLowerCase k) ''x-amzn'' then kvs
                  else define_prop (prefix_key k) v kvs)]"
    by (simp add: filter_step_heap_def p assign_heap_def store_prop_def prefix_key_def)
  with Cons.IH p show ?case by simp
qed

lemma filter_step_rep:
  "list_all2 (entry_rep h) xs (header_entries H) \<Longrightarrow>
   list_all2 (entry_rep h) kvs (header_entries acc) \<Longrightarrow>
   list_all2 (entry_rep h)
     (fold (\<lambda>(key, val) ob.
               if startsWith (toLowerCase key) ''x-amzn'' then ob
               else define_prop (prefix_key key) val ob) xs kvs)
     (header_entries (fold filter_step H acc))"
proof (induction H arbitrary: xs kvs acc)
  case Nil
  then show ?case by simp
next
  case (Cons q H)
  obtain k s where q: "q = (k, s)" by (cases q)
  from Cons.prems(1) q obtain v xs' where xs: "xs = (k, v) # xs'" and v: "rep h v (JStr s)"
    and rest: "list_all2 (entry_rep h) xs' (header_entries H)"
    by (cases xs) auto
  have step: "list_all2 (entry_rep h)
      (if startsWith (toLowerCase k) ''x-amzn'' then kvs else define_prop (prefix_key k) v kvs)
      (header_entries (filter_step q acc))"
    using Cons.prems(2) v define_prop_rep [of h kvs "header_entries acc" v "JStr s" "prefix_key k"]
    by (simp add: filter_step_def q assign_prefixed header_entries_define)
  from Cons.IH [OF rest step] xs show ?case by simp
qed

lemma header_rep_props:
  assumes "header_rep h x (Some H)"
  shows "val_truthy x" and "list_all2 (entry_rep h') (val_props (h @ e) x) (header_entries H)"
proof -
  from assms obtain a where x: "x = Some (VRef a)" and r: "rep h (VRef a) (json_of_headers H)"
    by (auto simp: header_rep_def split: option.splits val.splits)
  show "val_truthy x" by (simp add: x)
  from r have "rep (h @ e) (VRef a) (json_of_headers H)" by (rule rep_extend)
  from props_rep [OF this] have "list_all2 (entry_rep (h @ e)) (val_props (h @ e) x) (header_entries H)"
    by (simp add: x json_of_headers_def)
  then show "list_all2 (entry_rep h') (val_props (h @ e) x) (header_entries H)"
    by (rule header_entries_any_heap)
qed

lemma propagateHeaders_rep:
  assumes "header_rep h x hs"
  shows "\<exists>c R. propagateHeaders (node_console limit) hs None = Inr R \<and>
           propagateHeaders_heap silent_heap_console x None h = Inr (h @ [c], length h) \<and>
           rep (h @ [c]) (VRef (length h)) (json_of_headers R)"
proof (cases hs)
  case None
  with assms have "x = None" by (simp add: header_rep_def)
  with None show ?thesis
    by (simp add: propagateHeaders_def propagateHeaders_heap_def node_console_def
        silent_heap_console_def alloc_def json_of_headers_def)
next
  case (Some H)
  let ?kvs = "fold (\<lambda>(key, val) ob. if key = ''__proto__'' then ob else define_prop key val ob)
                (val_props (h @ [Obj []]) x) []"
  from assms Some have t: "val_truthy x"
    and l: "list_all2 (entry_rep (h @ [Obj ?kvs])) (val_props (h @ [Obj []]) x) (header_entries H)"
    by (auto dest: header_rep_props)
  have "list_all2 (entry_rep (h @ [Obj ?kvs])) ?kvs (header_entries (forward_all H []))"
    using l by (rule forward_all_rep) simp
  then have "rep (h @ [Obj ?kvs]) (VRef (length h)) (json_of_headers (forward_all H []))"
    by (simp add: json_of_headers_def)
  moreover have "propagateHeaders_heap silent_heap_console x None h = Inr (h @ [Obj ?kvs], length h)"
    using t by (simp add: propagateHeaders_heap_def silent_heap_console_def alloc_def Let_def
        fold_assign_heap)
  moreover have "propagateHeaders (node_console limit) hs None = Inr (forward_all H [])"
    by (simp add: Some propagateHeaders_def node_console_def)
  ultimately show ?thesis by blast
qed

lemma filterAndPrefixHeaders_rep:
  assumes "header_rep h x hs"
  shows "\<exists>c R. filterAndPrefixHeaders (node_console limit) hs = Inr R \<and>
           filterAndPrefixHeaders_heap silent_heap_console x (h @ e) = Inr ((h @ e) @ [c], length (h @ e)) \<and>
           rep ((h @ e) @ [c]) (VRef (length (h @ e))) (json_of_headers R)"
proof (cases hs)
  case None
  with assms have "x = None" by (simp add: header_rep_def)
  with None show ?thesis
    by (simp add: filterAndPrefixHeaders_def filterAndPrefixHeaders_heap_def node_console_def
        silent_heap_console_def alloc_def json_of_headers_def)
next
  case (Some H)
  let ?g = "h @ e"
  let ?kvs = "fold (\<lambda>(key, val) ob.
               if startsWith (toLowerCase key) ''x-amzn'' then ob
               else define_prop (prefix_key key) val ob) (val_props (?g @ [Obj []]) x) []"
  from assms Some have t: "val_truthy x" by (auto dest: header_rep_props)
  from assms Some have l: "list_all2 (entry_rep (?g @ [Obj ?kvs])) (val_props (h @ (e @ [Obj []])) x) (header_entries H)"
    by (auto dest: header_rep_props)
  have "list_all2 (entry_rep (?g @ [Obj ?kvs])) ?kvs (header_entries (fold filter_step H []))"
    using l by (intro filter_step_rep) simp_all
  then have "rep (?g @ [Obj ?kvs]) (VRef (length ?g)) (json_of_headers (fold filter_step H []))"
    by (simp add: json_of_headers_def)
  moreover have "filterAndPrefixHeaders_heap silent_heap_console x ?g = Inr (?g @ [Obj ?kvs], length ?g)"
    using t filter_step_heap_fold [of ?g "val_props (?g @ [Obj []]) x" "[]"]
    by (simp add: filterAndPrefixHeaders_heap_def silent_heap_console_def alloc_def Let_def)
  moreover have "filterAndPrefixHeaders (node_console limit) hs = Inr (fold filter_step H [])"
    by (simp add: Some filterAndPrefixHeaders_def node_console_def)
  ultimately show ?thesis by blast
qed

lemma or_new_rep:
  assumes "rel_option (rep h) x y"
  shows "\<exists>e v. or_new x h = (h @ e, v) \<and> rep (h @ e) v (or_empty y)"
proof (cases y)
  case None
  with assms have "x = None" by simp
  then have "or_new x h = (h @ [Obj []], VRef (length h))" by (simp add: or_new_def alloc_def)
  moreover have "rep (h @ [Obj []]) (VRef (length h)) (or_empty y)" by (simp add: None)
  ultimately show ?thesis by blast
next
  case (Some j)
  with assms obtain v where x: "x = Some v" and r: "rep h v j" by (cases x) auto
  show ?thesis
  proof (cases "truthy j")
    case True
    with r have "val_truthy (Some v)" by (simp add: rep_truthy)
    then have "or_new x h = (h @ [], v)" by (simp add: or_new_def x)
    moreover from r True have "rep (h @ []) v (or_empty y)" by (simp add: Some)
    ultimately show ?thesis by blast
  next
    case False
    with r have "\<not> val_truthy (Some v)" by (simp add: rep_truthy)
    then have "or_new x h = (h @ [Obj []], VRef (length h))" by (simp add: or_new_def alloc_def x)
    moreover from False have "rep (h @ [Obj []]) (VRef (length h)) (or_empty y)" by (simp add: Some)
    ultimately show ?thesis by blast
  qed
qed

lemma field_rep:
  "rep h v (JObj jkvs) \<Longrightarrow> rel_option (rep h) (val_field h (Some v) k) (map_of jkvs k)"
  by (auto split: val.splits cell.splits intro: map_of_rep)

lemma arguments_rep:
  "rep h v j \<Longrightarrow> rel_option (rep h) (val_field h (Some v) ''arguments'') (get_arguments j)"
proof (cases j)
  case (JObj jkvs)
  assume "rep h v j"
  with JObj show ?thesis using field_rep [of h v jkvs "''arguments''"] by simp
qed (auto split: val.splits cell.splits)

lemma mergeBody_rep:
  assumes b: "rep h (VRef b) (JObj B)" and p: "rep h (VRef pfx) (json_of_headers P)"
  shows "\<exists>e merged. mergeBody_heap (Some (VRef b)) pfx h = Inr (h @ e, merged) \<and>
           rep (h @ e) (VRef merged) (JObj (mergeBody B P))"
proof -
  let ?params = "or_empty (map_of B ''params'')"
  let ?args = "or_empty (get_arguments ?params)"
  from field_rep [OF b] have "rel_option (rep h) (val_field h (Some (VRef b)) ''params'') (map_of B ''params'')" .
  from or_new_rep [OF this] obtain e1 pv where
    o1: "or_new (val_field h (Some (VRef b)) ''params'') h = (h @ e1, pv)" and
    rp: "rep (h @ e1) pv ?params" by blast
  from or_new_rep [OF arguments_rep [OF rp]] obtain e2 av where
    o2: "or_new (val_field (h @ e1) (Some pv) ''arguments'') (h @ e1) = ((h @ e1) @ e2, av)" and
    ra: "rep ((h @ e1) @ e2) av ?args" by blast
  let ?h2 = "(h @ e1) @ e2"
  have b2: "rep ?h2 (VRef b) (JObj B)" by (rule rep_extend, rule rep_extend, rule b)
  have p2: "rep ?h2 (VRef pfx) (json_of_headers P)" by (rule rep_extend, rule rep_extend, rule p)
  have rp2: "rep ?h2 pv ?params" using rp by (rule rep_extend)
  let ?af = "copy_props ?h2 (Some (VRef pfx)) (copy_props ?h2 (Some av) [])"
  let ?jaf = "spread (json_of_headers P) (spread ?args [])"
  have af: "list_all2 (entry_rep ?h2) ?af ?jaf"
    by (intro copy_props_rep p2 ra) simp
  let ?h3 = "?h2 @ [Obj ?af]"
  have ra3: "rep ?h3 (VRef (length ?h2)) (JObj ?jaf)" using af by (rule alloc_rep)
  have rp3: "rep ?h3 pv ?params" using rp2 by (rule rep_extend)
  let ?pf = "define_prop ''arguments'' (VRef (length ?h2)) (copy_props ?h3 (Some pv) [])"
  let ?jpf = "define_prop ''arguments'' (JObj ?jaf) (spread ?params [])"
  have pf: "list_all2 (entry_rep ?h3) ?pf ?jpf"
    by (intro define_prop_rep copy_props_rep rp3 ra3) simp
  let ?h4 = "?h3 @ [Obj ?pf]"
  have rpm: "rep ?h4 (VRef (length ?h3)) (JObj ?jpf)" using pf by (rule alloc_rep)
  have b4: "rep ?h4 (VRef b) (JObj B)" by (rule rep_extend, rule rep_extend, rule b2)
  let ?mf = "define_prop ''params'' (VRef (length ?h3)) (copy_props ?h4 (Some (VRef b)) [])"
  let ?jmf = "define_prop ''params'' (JObj ?jpf) (spread (JObj B) [])"
  have mf: "list_all2 (entry_rep ?h4) ?mf ?jmf"
    by (intro define_prop_rep copy_props_rep b4 rpm) simp
  have rm: "rep (?h4 @ [Obj ?mf]) (VRef (length ?h4)) (JObj ?jmf)" using mf by (rule alloc_rep)
  have run: "mergeBody_heap (Some (VRef b)) pfx h = Inr (?h4 @ [Obj ?mf], length ?h4)"
    using o1 o2 by (simp add: mergeBody_heap_def Let_def alloc_def del: val_field.simps)
  have shape: "?h4 @ [Obj ?mf] = h @ (e1 @ e2 @ [Obj ?af, Obj ?pf, Obj ?mf])" by simp
  have "JObj ?jmf = JObj (mergeBody B P)" by (simp add: mergeBody_def Let_def)
  with rm run shape show ?thesis by metis
qed

lemma input_repD:
  assumes "input_rep h input i"
  obtains m raw req b where
    "val_field h (Some (VRef input)) ''mcp'' = Some (VRef m)"
    "val_field h (Some (VRef m)) ''rawGatewayRequest'' = Some (VRef raw)"
    "val_field h (Some (VRef m)) ''gatewayRequest'' = Some (VRef req)"
    "val_field h (Some (VRef req)) ''body'' = Some (VRef b)"
    "header_rep h (val_field h (Some (VRef req)) ''headers'') (headers (gatewayRequest (mcp i)))"
    "rep h (VRef b) (JObj (body (gatewayRequest (mcp i))))"
proof -
  from assms obtain m raw req b where
    "ref_field h input ''mcp'' = Some m" "ref_field h m ''rawGatewayRequest'' = Some raw"
    "ref_field h m ''gatewayRequest'' = Some req" "ref_field h req ''body'' = Some b"
    "header_rep h (val_field h (Some (VRef req)) ''headers'') (headers (gatewayRequest (mcp i)))"
    "rep h (VRef b) (JObj (body (gatewayRequest (mcp i))))"
    unfolding input_rep_def by (simp split: option.splits del: val_field.simps rep.simps)
  then show ?thesis using that ref_fieldD by blast
qed

lemma output_repI:
  assumes "ref_field h out ''mcp'' = Some m"
    and "ref_field h m ''transformedGatewayRequest'' = Some t"
    and "ref_field h t ''body'' = Some b"
    and "val_field h (Some (VRef out)) ''interceptorOutputVersion'' =
           Some (VStr (interceptorOutputVersion res))"
    and "val_field h (Some (VRef m)) ''transformedGatewayResponse'' = None"
    and "transformedGatewayResponse (mcp_out res) = None"
    and "header_rep h (val_field h (Some (VRef t)) ''headers'')
           (t_headers (transformedGatewayRequest (mcp_out res)))"
    and "rep h (VRef b) (JObj (t_body (transformedGatewayRequest (mcp_out res))))"
  shows "output_rep h out res"
  unfolding output_rep_def using assms by (simp del: rep.simps val_field.simps)

lemma ref_field_at:
  "i < length cells \<Longrightarrow> cells ! i = Obj kvs \<Longrightarrow> map_of kvs k = Some (VRef r) \<Longrightarrow>
   ref_field (pre @ cells) (length pre + i) k = Some r"
  unfolding ref_field_def by (simp add: val_field_at del: val_field.simps)

text \<open>
  The handler on the store and the handler on values agree: from a store that holds an
  input envelope, the handler on the store, when no logging statement throws, returns the
  address of an object that represents the output envelope the handler on values builds.
\<close>

theorem handler_refines:
  assumes "input_rep h input i"
  shows "\<exists>h' out.
     handleInterceptorRequest_heap silent_heap_console input h = Inr (h', out) \<and>
     output_rep h' out (transformed i)"
proof -
  let ?hs = "headers (gatewayRequest (mcp i))"
  let ?B = "body (gatewayRequest (mcp i))"
  from assms obtain m raw req b where
    m: "val_field h (Some (VRef input)) ''mcp'' = Some (VRef m)" and
    raw: "val_field h (Some (VRef m)) ''rawGatewayRequest'' = Some (VRef raw)" and
    req: "val_field h (Some (VRef m)) ''gatewayRequest'' = Some (VRef req)" and
    b: "val_field h (Some (VRef req)) ''body'' = Some (VRef b)" and
    hr: "header_rep h (val_field h (Some (VRef req)) ''headers'') ?hs" and
    br: "rep h (VRef b) (JObj ?B)"
    by (rule input_repD)
  let ?x = "val_field h (Some (VRef req)) ''headers''"
  from propagateHeaders_rep [OF hr, where limit = 0] obtain c1 R where
    pp: "propagateHeaders (node_console 0) ?hs None = Inr R" and
    ph: "propagateHeaders_heap silent_heap_console ?x None h = Inr (h @ [c1], length h)" and
    pr: "rep (h @ [c1]) (VRef (length h)) (json_of_headers R)" by blast
  from filterAndPrefixHeaders_rep [OF hr, where limit = 0 and e = "[c1]"] obtain c2 P where
    fp: "filterAndPrefixHeaders (node_console 0) ?hs = Inr P" and
    fh: "filterAndPrefixHeaders_heap silent_heap_console ?x (h @ [c1]) =
           Inr ((h @ [c1]) @ [c2], length (h @ [c1]))" and
    fr: "rep ((h @ [c1]) @ [c2]) (VRef (length (h @ [c1]))) (json_of_headers P)" by blast
  let ?h2 = "(h @ [c1]) @ [c2]"
  have br2: "rep ?h2 (VRef b) (JObj ?B)" by (rule rep_extend, rule rep_extend, rule br)
  from mergeBody_rep [OF br2 fr] obtain e merged where
    mh: "mergeBody_heap (Some (VRef b)) (length (h @ [c1])) ?h2 = Inr (?h2 @ e, merged)" and
    mr: "rep (?h2 @ e) (VRef merged) (JObj (mergeBody ?B P))" by blast
  let ?h3 = "?h2 @ e"
  let ?cells = "[Obj [(''headers'', VRef (length h)), (''body'', VRef merged)],
           Obj [(''transformedGatewayRequest'', VRef (length ?h3))],
           Obj [(''interceptorOutputVersion'', VStr ''1.0''), (''mcp'', VRef (Suc (length ?h3)))]]"
  let ?h' = "?h3 @ ?cells"
  have mem: "\<And>a k. member h (Some (VRef a)) k = Inr (val_field h (Some (VRef a)) k)"
    by simp
  have fh': "filterAndPrefixHeaders_heap silent_heap_console ?x (h @ [c1]) =
      Inr (h @ [c1, c2], Suc (length h))"
    using fh by (simp del: val_field.simps)
  have mh': "mergeBody_heap (Some (VRef b)) (Suc (length h)) (h @ [c1, c2]) =
      Inr (h @ c1 # c2 # e, merged)"
    using mh by (simp del: val_field.simps)
  have run: "handleInterceptorRequest_heap silent_heap_console input h = Inr (?h', Suc (Suc (length ?h3)))"
    unfolding handleInterceptorRequest_heap_def
    by (simp add: mem m raw req b ph fh' mh' silent_heap_console_def output_heap_result
        del: val_field.simps member.simps)
  let ?res = "\<lparr>interceptorOutputVersion = ''1.0'',
          mcp_out = \<lparr>transformedGatewayRequest = \<lparr>t_headers = Some R, t_body = mergeBody ?B P\<rparr>,
                     transformedGatewayResponse = None\<rparr>\<rparr>"
  have pure: "transformed i = ?res"
    using pp fp
    by (simp add: transformed_def Let_def propagateHeaders_forward_all filterAndPrefixHeaders_run
        incoming_def split: option.splits)
  have f_out: "ref_field ?h' (Suc (Suc (length ?h3))) ''mcp'' = Some (Suc (length ?h3))"
    using ref_field_at [of 2 ?cells _ "''mcp''" "Suc (length ?h3)" ?h3] by simp
  have f_ver: "val_field ?h' (Some (VRef (Suc (Suc (length ?h3))))) ''interceptorOutputVersion'' =
      Some (VStr ''1.0'')"
    using val_field_at [of 2 ?cells _ ?h3 "''interceptorOutputVersion''"] by simp
  have f_m: "ref_field ?h' (Suc (length ?h3)) ''transformedGatewayRequest'' = Some (length ?h3)"
    using ref_field_at [of 1 ?cells _ "''transformedGatewayRequest''" "length ?h3" ?h3] by simp
  have f_resp: "val_field ?h' (Some (VRef (Suc (length ?h3)))) ''transformedGatewayResponse'' = None"
    using val_field_at [of 1 ?cells _ ?h3 "''transformedGatewayResponse''"] by simp
  have f_b: "ref_field ?h' (length ?h3) ''body'' = Some merged"
    using ref_field_at [of 0 ?cells _ "''body''" merged ?h3] by simp
  have f_h: "val_field ?h' (Some (VRef (length ?h3))) ''headers'' = Some (VRef (length h))"
    using val_field_at [of 0 ?cells _ ?h3 "''headers''"] by simp
  have ext: "?h' = (h @ [c1]) @ ([c2] @ e @ ?cells)" by simp
  have hr': "rep ?h' (VRef (length h)) (json_of_headers R)"
    unfolding ext by (rule rep_extend, rule pr)
  then have hh: "header_rep ?h' (val_field ?h' (Some (VRef (length ?h3))) ''headers'')
      (t_headers (transformedGatewayRequest (mcp_out ?res)))"
    unfolding f_h by (simp add: header_rep_def del: rep.simps)
  have mr': "rep ?h' (VRef merged) (JObj (t_body (transformedGatewayRequest (mcp_out ?res))))"
    using rep_extend [OF mr, of ?cells] by (simp del: rep.simps)
  have f_ver': "val_field ?h' (Some (VRef (Suc (Suc (length ?h3))))) ''interceptorOutputVersion'' =
      Some (VStr (interceptorOutputVersion ?res))"
    using f_ver by (simp del: val_field.simps)
  have f_none: "transformedGatewayResponse (mcp_out ?res) = None" by simp
  have "output_rep ?h' (Suc (Suc (length ?h3))) ?res"
    by (rule output_repI [OF f_out f_m f_b f_ver' f_resp f_none hh mr'])
  then have "output_rep ?h' (Suc (Suc (length ?h3))) (transformed i)"
    by (simp only: pure)
  with run show ?thesis by blast
qed

lemma sample_heap_represents: "input_rep sample_heap 0 sample_heap_input"
  by (simp add: input_rep_def ref_field_def sample_heap_def sample_heap_input_def header_rep_def
      json_of_headers_def)

lemma handler_refines_sample:
  "\<exists>h' out.
     handleInterceptorRequest_heap silent_heap_console 0 sample_heap = Inr (h', out) \<and>
     output_rep h' out (transformed sample_heap_input)"
  using sample_heap_represents by (rule handler_refines)

section \<open>The claims\<close>

text \<open>
  C1. For every body \<open>B\<close> and filtered header mapping \<open>P\<close>, the merged body keeps every
  top-level field of \<open>B\<close> other than \<open>params\<close>; its \<open>params\<close> is an object that keeps
  every field of \<open>B.params\<close> other than \<open>arguments\<close>; its \<open>params.arguments\<close> is an
  object holding every entry of \<open>P\<close>, and every field of \<open>B.params.arguments\<close> whose key
  is not a key of \<open>P\<close>. An absent \<open>params\<close> or \<open>arguments\<close> counts as the empty object.
  In particular the body \<open>{a:1}\<close> with \<open>{mcp_header_X:"v"}\<close> gives
  \<open>{a:1, params:{arguments:{mcp_header_X:"v"}}}\<close>.
\<close>

theorem mergeBody_fields:
  assumes "wf_json (JObj B)" and "distinct (map fst P)"
  shows "(\<forall>k. k \<noteq> ''params'' \<longrightarrow> map_of (mergeBody B P) k = map_of B k) \<and>
         (\<exists>pm am. map_of (mergeBody B P) ''params'' = Some (JObj pm) \<and>
            (\<forall>k. k \<noteq> ''arguments'' \<longrightarrow> map_of pm k = fields (map_of B ''params'') k) \<and>
            map_of pm ''arguments'' = Some (JObj am) \<and>
            (\<forall>k. map_of am k =
               (case map_of P k of
                  Some v \<Rightarrow> Some (JStr v)
                | None \<Rightarrow> fields (Option.bind (map_of B ''params'') get_arguments) k))) \<and>
         mergeBody [(''a'', JNum 1)] [(''mcp_header_X'', ''v'')] =
           [(''a'', JNum 1), (''params'', JObj [(''arguments'', JObj [(''mcp_header_X'', JStr ''v'')])])]"
proof -
  have ex: "mergeBody [(''a'', JNum 1)] [(''mcp_header_X'', ''v'')] =
      [(''a'', JNum 1), (''params'', JObj [(''arguments'', JObj [(''mcp_header_X'', JStr ''v'')])])]"
    by (simp add: mergeBody_def spread_def define_prop_def json_of_headers_def)
  have parts: "(\<forall>k. k \<noteq> ''params'' \<longrightarrow> map_of (mergeBody B P) k = map_of B k) \<and>
         (\<exists>pm am. map_of (mergeBody B P) ''params'' = Some (JObj pm) \<and>
            (\<forall>k. k \<noteq> ''arguments'' \<longrightarrow> map_of pm k = fields (map_of B ''params'') k) \<and>
            map_of pm ''arguments'' = Some (JObj am) \<and>
            (\<forall>k. map_of am k =
               (case map_of P k of
                  Some v \<Rightarrow> Some (JStr v)
                | None \<Rightarrow> fields (Option.bind (map_of B ''params'') get_arguments) k)))"
    using assms by (rule mergeBody_parts)
  show ?thesis
    by (rule conjI [OF parts [THEN conjunct1] conjI [OF parts [THEN conjunct2] ex]])
qed

theorem mergeBody_fields_witness:
  "wf_json (JObj [(''a'', JNum 1), (''params'', JObj [(''b'', JNum 2), (''arguments'', JObj [(''c'', JNum 3)])])]) \<and>
   distinct (map fst [(''mcp_header_X'', ''v'')]) \<and>
   map_of (mergeBody [(''a'', JNum 1), (''params'', JObj [(''b'', JNum 2), (''arguments'', JObj [(''c'', JNum 3)])])]
                     [(''mcp_header_X'', ''v'')]) ''a'' = Some (JNum 1) \<and>
   (\<exists>pm am. map_of (mergeBody [(''a'', JNum 1), (''params'', JObj [(''b'', JNum 2), (''arguments'', JObj [(''c'', JNum 3)])])]
                     [(''mcp_header_X'', ''v'')]) ''params'' = Some (JObj pm) \<and>
        map_of pm ''b'' = Some (JNum 2) \<and>
        map_of pm ''arguments'' = Some (JObj am) \<and>
        map_of am ''c'' = Some (JNum 3) \<and>
        map_of am ''mcp_header_X'' = Some (JStr ''v''))"
proof -
  let ?B = "[(''a'', JNum 1), (''params'', JObj [(''b'', JNum 2), (''arguments'', JObj [(''c'', JNum 3)])])]"
  let ?P = "[(''mcp_header_X'', ''v'')]"
  have w: "wf_json (JObj ?B)" by simp
  have d: "distinct (map fst ?P)" by simp
  from mergeBody_fields [OF w d] obtain pm am where
    top: "\<forall>k. k \<noteq> ''params'' \<longrightarrow> map_of (mergeBody ?B ?P) k = map_of ?B k" and
    p: "map_of (mergeBody ?B ?P) ''params'' = Some (JObj pm)" and
    pf: "\<forall>k. k \<noteq> ''arguments'' \<longrightarrow> map_of pm k = fields (map_of ?B ''params'') k" and
    a: "map_of pm ''arguments'' = Some (JObj am)" and
    af: "\<forall>k. map_of am k = (case map_of ?P k of Some v \<Rightarrow> Some (JStr v)
            | None \<Rightarrow> fields (Option.bind (map_of ?B ''params'') get_arguments) k)"
    by blast
  from top have "map_of (mergeBody ?B ?P) ''a'' = Some (JNum 1)" by simp
  moreover from pf have "map_of pm ''b'' = Some (JNum 2)" by (simp add: fields_def)
  moreover from af have "map_of am ''c'' = Some (JNum 3)" by (simp add: fields_def)
  moreover from af have "map_of am ''mcp_header_X'' = Some (JStr ''v'')" by simp
  ultimately show ?thesis using w d p a by blast
qed

text \<open>
  C2. For every header mapping \<open>H\<close>, the result of \<open>filterAndPrefixHeaders\<close> has pairwise
  different keys, holds \<open>mcp_header_k\<close> with the value of \<open>k\<close> for every key \<open>k\<close> of \<open>H\<close>
  whose lower-case form does not start with \<open>x-amzn\<close>, holds nothing else, and has as
  many entries as \<open>H\<close> has keys that are not dropped; an absent mapping gives the empty
  one.
\<close>

theorem filterAndPrefixHeaders_spec:
  assumes "distinct (map fst H)"
  shows "filterAndPrefixHeaders (node_console limit) None = Inr [] \<and>
         (\<exists>R. filterAndPrefixHeaders (node_console limit) (Some H) = Inr R \<and>
           distinct (map fst R) \<and>
           (\<forall>k v. map_of H k = Some v \<and> \<not> startsWith (toLowerCase k) ''x-amzn'' \<longrightarrow>
                  map_of R (''mcp_header_'' @ k) = Some v) \<and>
           (\<forall>k' v. map_of R k' = Some v \<longrightarrow>
                  (\<exists>k. k' = ''mcp_header_'' @ k \<and> map_of H k = Some v \<and>
                       \<not> startsWith (toLowerCase k) ''x-amzn'')) \<and>
           length R =
             length H - length (filter (\<lambda>(k, v). startsWith (toLowerCase k) ''x-amzn'') H))"
proof -
  have r: "filterAndPrefixHeaders (node_console limit) (Some H) = Inr (prefixed H)"
    using assms by (rule filterAndPrefixHeaders_eq)
  have d: "distinct (map fst (prefixed H))"
    using assms by (rule distinct_prefixed)
  have inc: "\<forall>k v. map_of H k = Some v \<and> \<not> startsWith (toLowerCase k) ''x-amzn'' \<longrightarrow>
                  map_of (prefixed H) (''mcp_header_'' @ k) = Some v"
    using map_of_prefixed [of H] by (auto simp: reserved_def prefix_key_def)
  have only: "\<forall>k' v. map_of (prefixed H) k' = Some v \<longrightarrow>
                  (\<exists>k. k' = ''mcp_header_'' @ k \<and> map_of H k = Some v \<and>
                       \<not> startsWith (toLowerCase k) ''x-amzn'')"
    using map_of_prefixed [of H] by (auto simp: reserved_def prefix_key_def)
  have len: "length (prefixed H) =
      length H - length (filter (\<lambda>(k, v). startsWith (toLowerCase k) ''x-amzn'') H)"
    using length_prefixed [of H] by (simp add: reserved_def)
  have none: "filterAndPrefixHeaders (node_console limit) None = Inr []"
    by (simp add: filterAndPrefixHeaders_def)
  from r d inc only len none show ?thesis by blast
qed

theorem filterAndPrefixHeaders_spec_witness:
  "distinct (map fst [(''Authorization'', ''Bearer t''), (''X-Amzn-Trace-Id'', ''1'')]) \<and>
   (\<exists>R. filterAndPrefixHeaders (node_console 0)
          (Some [(''Authorization'', ''Bearer t''), (''X-Amzn-Trace-Id'', ''1'')]) = Inr R \<and>
        map_of R ''mcp_header_Authorization'' = Some ''Bearer t'' \<and>
        map_of R ''mcp_header_X-Amzn-Trace-Id'' = None \<and>
        length R = 1)"
proof -
  let ?H = "[(''Authorization'', ''Bearer t''), (''X-Amzn-Trace-Id'', ''1'')]"
  have d: "distinct (map fst ?H)" by simp
  have keep: "\<not> startsWith (toLowerCase ''Authorization'') ''x-amzn''"
    by (simp add: startsWith_def toLowerCase_def lower_char_def)
  have drop: "startsWith (toLowerCase ''X-Amzn-Trace-Id'') ''x-amzn''"
    by (simp add: startsWith_def toLowerCase_def lower_char_def)
  from filterAndPrefixHeaders_spec [OF d] obtain R where
    r: "filterAndPrefixHeaders (node_console 0) (Some ?H) = Inr R" and
    inc: "\<forall>k v. map_of ?H k = Some v \<and> \<not> startsWith (toLowerCase k) ''x-amzn'' \<longrightarrow>
                  map_of R (''mcp_header_'' @ k) = Some v" and
    only: "\<forall>k' v. map_of R k' = Some v \<longrightarrow>
                  (\<exists>k. k' = ''mcp_header_'' @ k \<and> map_of ?H k = Some v \<and>
                       \<not> startsWith (toLowerCase k) ''x-amzn'')" and
    len: "length R =
      length ?H - length (filter (\<lambda>(k, v). startsWith (toLowerCase k) ''x-amzn'') ?H)"
    by blast
  from inc keep have a: "map_of R ''mcp_header_Authorization'' = Some ''Bearer t''"
    by (metis append_Cons append_Nil map_of_Cons_code(2))
  have b: "map_of R ''mcp_header_X-Amzn-Trace-Id'' = None"
  proof (cases "map_of R ''mcp_header_X-Amzn-Trace-Id''")
    case None
    then show ?thesis .
  next
    case (Some v)
    with only obtain k where "''mcp_header_X-Amzn-Trace-Id'' = ''mcp_header_'' @ k"
      and "\<not> startsWith (toLowerCase k) ''x-amzn''" by blast
    with drop show ?thesis by simp
  qed
  from len keep drop have "length R = 1" by simp
  with d r a b show ?thesis by blast
qed

text \<open>
  C3. \<open>propagateHeaders\<close> evaluated on an incoming mapping whose only header is named
  \<open>__proto__\<close>, with no additional headers: the header is not forwarded.
\<close>

theorem propagateHeaders_drops_proto:
  "propagateHeaders (node_console limit) (Some [(''__proto__'', ''x'')]) None = Inr []"
  by (simp add: propagateHeaders_def node_console_def forward_all_def assign_def)

text \<open>
  C4, as the claim states it, fails: a string at \<open>params\<close> and an array at \<open>params.arguments\<close>
  are not replaced by the empty object: their elements are copied under their indices,
  and the merged body differs from the one obtained when the field is absent.
\<close>

theorem non_object_is_spread:
  "mergeBody [(''params'', JStr ''ab'')] [] =
     [(''params'', JObj [(''0'', JStr ''a''), (''1'', JStr ''b''), (''arguments'', JObj [])])] \<and>
   mergeBody [(''params'', JObj [(''arguments'', JArr [JNum 7])])] [] =
     [(''params'', JObj [(''arguments'', JObj [(''0'', JNum 7)])])] \<and>
   mergeBody [] [] = [(''params'', JObj [(''arguments'', JObj [])])] \<and>
   mergeBody [(''params'', JObj [])] [] = [(''params'', JObj [(''arguments'', JObj [])])] \<and>
   map_of (mergeBody [(''params'', JStr ''ab'')] []) \<noteq> map_of (mergeBody [] [])"
  by (simp add: mergeBody_def spread_def define_prop_def json_of_headers_def Let_def
      show_nat.simps digit_char_def upt_rec fun_eq_iff)

text \<open>
  C4, amended: for every body in which \<open>params\<close>, or \<open>params.arguments\<close>, is a value that is
  not an object and has no elements (null, a boolean, a number, the empty string, the
  empty array), the merged body has the same fields as the merged body of the body
  without that field, and so have its \<open>params\<close>.
\<close>

theorem empty_non_object_as_absent:
  assumes "wf_json (JObj B)" and "\<not> is_object v" and "own_props v = []"
  shows "(map_of B ''params'' = Some v \<longrightarrow>
            map_of (mergeBody B P) = map_of (mergeBody (drop_prop ''params'' B) P)) \<and>
         (\<forall>ps. map_of B ''params'' = Some (JObj ps) \<and> map_of ps ''arguments'' = Some v \<longrightarrow>
            (\<exists>pm pm'.
               map_of (mergeBody B P) ''params'' = Some (JObj pm) \<and>
               map_of (mergeBody (define_prop ''params'' (JObj (drop_prop ''arguments'' ps)) B) P)
                 ''params'' = Some (JObj pm') \<and>
               map_of pm = map_of pm' \<and>
               (\<forall>k. k \<noteq> ''params'' \<longrightarrow>
                  map_of (mergeBody B P) k =
                  map_of (mergeBody (define_prop ''params'' (JObj (drop_prop ''arguments'' ps)) B) P) k)))"
  using params_as_absent [OF assms] arguments_as_absent [OF assms] by blast

theorem empty_non_object_as_absent_witness:
  "wf_json (JObj [(''a'', JNum 1), (''params'', JNum 5)]) \<and>
   \<not> is_object (JNum 5) \<and> own_props (JNum 5) = [] \<and>
   map_of (mergeBody [(''a'', JNum 1), (''params'', JNum 5)] [(''mcp_header_X'', ''v'')]) =
   map_of (mergeBody [(''a'', JNum 1)] [(''mcp_header_X'', ''v'')])"
proof -
  let ?B = "[(''a'', JNum 1), (''params'', JNum 5)]"
  have w: "wf_json (JObj ?B)" by simp
  have o: "\<not> is_object (JNum 5)" by simp
  have e: "own_props (JNum 5) = []" by simp
  have l: "map_of ?B ''params'' = Some (JNum 5)" by simp
  have d: "drop_prop ''params'' ?B = [(''a'', JNum 1)]" by (simp add: drop_prop_def)
  from empty_non_object_as_absent [OF w o e, of "[(''mcp_header_X'', ''v'')]", THEN conjunct1, rule_format, OF l]
  have "map_of (mergeBody ?B [(''mcp_header_X'', ''v'')]) =
        map_of (mergeBody (drop_prop ''params'' ?B) [(''mcp_header_X'', ''v'')])" .
  then have "map_of (mergeBody ?B [(''mcp_header_X'', ''v'')]) =
        map_of (mergeBody [(''a'', JNum 1)] [(''mcp_header_X'', ''v'')])" unfolding d .
  with w o e show ?thesis by (intro conjI)
qed




text \<open>
  C6, as the claim states it, fails: a console that throws in the logging statement of
  \<open>propagateHeaders\<close> makes the handler end with that exception, where a console of the
  runtime whose stack holds the envelopes lets it return the output envelope.
\<close>

theorem logging_failure_aborts:
  "handleInterceptorRequest failing_console sample_input = Inl (Thrown ''write EPIPE'') \<and>
   (\<forall>n. handleInterceptorRequest (node_console (5 + n)) sample_input =
     Inr \<lparr>interceptorOutputVersion = ''1.0'',
          mcp_out = \<lparr>transformedGatewayRequest =
                       \<lparr>t_headers = Some [(''Authorization'', ''Bearer t''), (''x-amzn-trace'', ''1'')],
                        t_body = [(''params'', JObj [(''arguments'',
                                     JObj [(''mcp_header_Authorization'', JStr ''Bearer t'')])])]\<rparr>,
                     transformedGatewayResponse = None\<rparr>\<rparr>)"
  by (simp add: handleInterceptorRequest_def sample_input_def failing_console_def node_console_def
      propagateHeaders_def filterAndPrefixHeaders_def forward_all_def assign_def define_prop_def
      filter_step_def prefix_key_def startsWith_def toLowerCase_def lower_char_def
      mergeBody_def spread_def json_of_headers_def Let_def)

text \<open>
  C6, amended: no failure of a logging statement is swallowed. On every console and every
  input envelope that has the fields of the interface type, the handler ends with the
  exception of the first logging statement on its path that throws (the six statements
  of the handler, the one of \<open>propagateHeaders\<close>, the one of \<open>filterAndPrefixHeaders\<close>
  when the header mapping is present, the last one of the handler, in this order), and
  no later statement is executed; it returns the output envelope exactly when none of
  them throws, and the envelope is then the same on every console. Likewise
  \<open>propagateHeaders\<close> and \<open>filterAndPrefixHeaders\<close> end with the exception of their
  logging statement when it throws, and return their mapping otherwise.
\<close>

theorem logging_failures_surface:
  "handleInterceptorRequest c i =
     (case first_throw c (statements i) of
        Some e \<Rightarrow> Inl e
      | None \<Rightarrow> Inr (transformed i)) \<and>
   propagateHeaders c hs ha =
     (case c ''Propagated Headers:''
             (LHeaders (Some (forward_all (incoming ha) (forward_all (incoming hs) [])))) of
        Some e \<Rightarrow> Inl e
      | None \<Rightarrow> Inr (forward_all (incoming ha) (forward_all (incoming hs) []))) \<and>
   filterAndPrefixHeaders c None = Inr [] \<and>
   filterAndPrefixHeaders c (Some h) =
     (case c ''Filtered and Prefixed Headers:'' (LHeaders (Some (fold filter_step h []))) of
        Some e \<Rightarrow> Inl e
      | None \<Rightarrow> Inr (fold filter_step h []))"
  using handleInterceptorRequest_run [of c i] propagateHeaders_run [of c hs ha]
    filterAndPrefixHeaders_run [of c None] filterAndPrefixHeaders_run [of c "Some h"]
  by simp

theorem logging_failures_surface_witness:
  "handleInterceptorRequest
     (\<lambda>label x. if label = ''Filtered and Prefixed Headers:'' then Some (Thrown ''write EPIPE'') else None)
     sample_input = Inl (Thrown ''write EPIPE'')"
proof -
  let ?c = "\<lambda>label x. if label = ''Filtered and Prefixed Headers:''
                       then Some (Thrown ''write EPIPE'') else (None :: error option)"
  have f: "first_throw ?c (statements sample_input) = Some (Thrown ''write EPIPE'')"
    by (simp add: statements_def sample_input_def Let_def)
  from logging_failures_surface [of ?c sample_input, THEN conjunct1]
  show ?thesis unfolding f by simp
qed

text \<open>
  C7. \<open>filterAndPrefixHeaders\<close> is not idempotent: there is a header mapping on which a
  second application differs from the first, and on every header mapping the second
  application puts the prefix once more in front of every key of the first result.
\<close>

theorem filterAndPrefixHeaders_not_idempotent:
  "(\<exists>H R. distinct (map fst H) \<and>
       filterAndPrefixHeaders (node_console limit) (Some H) = Inr R \<and>
       filterAndPrefixHeaders (node_console limit) (Some R) \<noteq> Inr R) \<and>
   (\<forall>H R. distinct (map fst H) \<and> filterAndPrefixHeaders (node_console limit) (Some H) = Inr R \<longrightarrow>
       filterAndPrefixHeaders (node_console limit) (Some R) =
         Inr (map (\<lambda>(k, v). (''mcp_header_'' @ k, v)) R))"
proof (rule conjI)
  let ?H = "[(''Authorization'', ''Bearer t'')]"
  let ?R = "[(''mcp_header_Authorization'', ''Bearer t'')]"
  have d: "distinct (map fst ?H)" by simp
  have ne: "filterAndPrefixHeaders (node_console limit) (Some ?R) \<noteq> Inr ?R"
    unfolding r2 by simp
  from d r1 ne have "distinct (map fst ?H) \<and>
       filterAndPrefixHeaders (node_console limit) (Some ?H) = Inr ?R \<and>
       filterAndPrefixHeaders (node_console limit) (Some ?R) \<noteq> Inr ?R" by (intro conjI)
  then show "\<exists>H R. distinct (map fst H) \<and>
       filterAndPrefixHeaders (node_console limit) (Some H) = Inr R \<and>
       filterAndPrefixHeaders (node_console limit) (Some R) \<noteq> Inr R"
    by (intro exI)
next
  show "\<forall>H R. distinct (map fst H) \<and> filterAndPrefixHeaders (node_console limit) (Some H) = Inr R \<longrightarrow>
       filterAndPrefixHeaders (node_console limit) (Some R) =
         Inr (map (\<lambda>(k, v). (''mcp_header_'' @ k, v)) R)"
  proof (intro allI impI)
    fix H R
    assume a: "distinct (map fst H) \<and> filterAndPrefixHeaders (node_console limit) (Some H) = Inr R"
    have e: "(\<lambda>(k, v). (prefix_key k, v)) = (\<lambda>(k, v :: string). (''mcp_header_'' @ k, v))"
      by (simp add: prefix_key_def)
    from a have "filterAndPrefixHeaders (node_console limit) (Some R) = Inr (map (\<lambda>(k, v). (prefix_key k, v)) R)"
      using recompound by blast
    then show "filterAndPrefixHeaders (node_console limit) (Some R) =
         Inr (map (\<lambda>(k, v). (''mcp_header_'' @ k, v)) R)"
      unfolding e .
  qed
qed

theorem filterAndPrefixHeaders_not_idempotent_witness:
  "distinct (map fst [(''Authorization'', ''Bearer t'')]) \<and>
   filterAndPrefixHeaders (node_console 0) (Some [(''Authorization'', ''Bearer t'')]) =
     Inr [(''mcp_header_Authorization'', ''Bearer t'')] \<and>
   filterAndPrefixHeaders (node_console 0) (Some [(''mcp_header_Authorization'', ''Bearer t'')]) =
     Inr [(''mcp_header_mcp_header_Authorization'', ''Bearer t'')]"
proof -
  let ?H = "[(''Authorization'', ''Bearer t'')]"
  let ?R = "[(''mcp_header_Authorization'', ''Bearer t'')]"
  have d: "distinct (map fst ?H)" by simp
  have "distinct (map fst ?H) \<and> filterAndPrefixHeaders (node_console 0) (Some ?H) = Inr ?R \<longrightarrow>
      filterAndPrefixHeaders (node_console 0) (Some ?R) =
        Inr (map (\<lambda>(k, v). (''mcp_header_'' @ k, v)) ?R)"
    by (rule filterAndPrefixHeaders_not_idempotent
        [THEN conjunct2, THEN spec, THEN spec])
  with d r1 have "filterAndPrefixHeaders (node_console 0) (Some ?R) =
      Inr (map (\<lambda>(k, v). (''mcp_header_'' @ k, v)) ?R)"
    by (simp only: simp_thms)
  then have "filterAndPrefixHeaders (node_console 0) (Some ?R) =
      Inr [(''mcp_header_mcp_header_Authorization'', ''Bearer t'')]" by simp
  with d r1 show ?thesis by (intro conjI)
qed




text \<open>
  C9. For every input envelope, on every console: the handler returns when none of its
  logging statements throws, and whenever it returns, the body of its output has an
  object at \<open>params\<close> with an object at \<open>arguments\<close>, in which every field of the input's
  \<open>params.arguments\<close> whose key does not start with \<open>mcp_header_\<close> keeps its value.
\<close>

theorem arguments_survive:
  assumes "wf_json (JObj (body (gatewayRequest (mcp input))))"
  shows "(first_throw c (statements input) = None \<longrightarrow>
            (\<exists>out. handleInterceptorRequest c input = Inr out)) \<and>
         (\<forall>out. handleInterceptorRequest c input = Inr out \<longrightarrow>
            (\<exists>pm am.
               map_of (t_body (transformedGatewayRequest (mcp_out out))) ''params'' = Some (JObj pm) \<and>
               map_of pm ''arguments'' = Some (JObj am) \<and>
               (\<forall>k v. fields (Option.bind (map_of (body (gatewayRequest (mcp input))) ''params'')
                                 get_arguments) k = Some v \<and>
                      \<not> startsWith k ''mcp_header_'' \<longrightarrow> map_of am k = Some v)))"
proof (rule conjI)
  show "first_throw c (statements input) = None \<longrightarrow>
            (\<exists>out. handleInterceptorRequest c input = Inr out)"
    by (simp add: handleInterceptorRequest_Inr)
next
  let ?req = "gatewayRequest (mcp input)"
  let ?pfx = "fold filter_step (incoming (headers ?req)) []"
  have p: "filterAndPrefixHeaders (node_console 0) (headers ?req) = Inr ?pfx"
    by (rule filterAndPrefixHeaders_fold)
  from filterAndPrefixHeaders_result [OF p] assms
  have kept: "\<exists>pm am. map_of (mergeBody (body ?req) ?pfx) ''params'' = Some (JObj pm) \<and>
           map_of pm ''arguments'' = Some (JObj am) \<and>
           (\<forall>k v. fields (Option.bind (map_of (body ?req) ''params'') get_arguments) k = Some v \<and>
                  \<not> startsWith k ''mcp_header_'' \<longrightarrow> map_of am k = Some v)"
    by (intro mergeBody_arguments_kept)
  show "\<forall>out. handleInterceptorRequest c input = Inr out \<longrightarrow>
            (\<exists>pm am.
               map_of (t_body (transformedGatewayRequest (mcp_out out))) ''params'' = Some (JObj pm) \<and>
               map_of pm ''arguments'' = Some (JObj am) \<and>
               (\<forall>k v. fields (Option.bind (map_of (body (gatewayRequest (mcp input))) ''params'')
                                 get_arguments) k = Some v \<and>
                      \<not> startsWith k ''mcp_header_'' \<longrightarrow> map_of am k = Some v))"
  proof (intro allI impI)
    fix out
    assume "handleInterceptorRequest c input = Inr out"
    then have "out = transformed input" by (simp add: handleInterceptorRequest_Inr)
    then have b: "t_body (transformedGatewayRequest (mcp_out out)) = mergeBody (body ?req) ?pfx"
      by (simp add: transformed_body)
    show "\<exists>pm am.
               map_of (t_body (transformedGatewayRequest (mcp_out out))) ''params'' = Some (JObj pm) \<and>
               map_of pm ''arguments'' = Some (JObj am) \<and>
               (\<forall>k v. fields (Option.bind (map_of (body (gatewayRequest (mcp input))) ''params'')
                                 get_arguments) k = Some v \<and>
                      \<not> startsWith k ''mcp_header_'' \<longrightarrow> map_of am k = Some v)"
      unfolding b by (rule kept)
  qed
qed

theorem arguments_survive_witness:
  "wf_json (JObj [(''params'', JObj [(''arguments'', JObj [(''city'', JStr ''Oslo'')])])]) \<and>
   (\<exists>out pm am.
      handleInterceptorRequest (node_console 5)
        \<lparr>interceptorInputVersion = ''1.0'',
         mcp = \<lparr>rawGatewayRequest = \<lparr>raw_body = ''{}''\<rparr>,
                gatewayRequest = \<lparr>path = ''/mcp'', httpMethod = ''POST'',
                  headers = Some [(''city'', ''Rome'')],
                  body = [(''params'', JObj [(''arguments'', JObj [(''city'', JStr ''Oslo'')])])]\<rparr>\<rparr>\<rparr>
        = Inr out \<and>
      map_of (t_body (transformedGatewayRequest (mcp_out out))) ''params'' = Some (JObj pm) \<and>
      map_of pm ''arguments'' = Some (JObj am) \<and>
      map_of am ''city'' = Some (JStr ''Oslo''))"
proof -
  let ?B = "[(''params'', JObj [(''arguments'', JObj [(''city'', JStr ''Oslo'')])])]"
  let ?i = "\<lparr>interceptorInputVersion = ''1.0'',
         mcp = \<lparr>rawGatewayRequest = \<lparr>raw_body = ''{}''\<rparr>,
                gatewayRequest = \<lparr>path = ''/mcp'', httpMethod = ''POST'',
                  headers = Some [(''city'', ''Rome'')],
                  body = ?B\<rparr>\<rparr>\<rparr>"
  let ?c = "node_console 5"
  have w: "wf_json (JObj ?B)" by simp
  then have w': "wf_json (JObj (body (gatewayRequest (mcp ?i))))" by simp
  have n: "first_throw ?c (statements ?i) = None"
    by (rule node_console_returns)
       (simp_all add: transformed_def incoming_def forward_all_def assign_def
          define_prop_def filter_step_def prefix_key_def startsWith_def toLowerCase_def
          lower_char_def mergeBody_def spread_def json_of_headers_def Let_def)
  note t = arguments_survive [OF w', of ?c]
  from t [THEN conjunct1, rule_format, OF n] obtain out where
    o: "handleInterceptorRequest ?c ?i = Inr out" by (elim exE)
  from t [THEN conjunct2, rule_format, OF o] obtain pm am where
    p: "map_of (t_body (transformedGatewayRequest (mcp_out out))) ''params'' = Some (JObj pm)" and
    a: "map_of pm ''arguments'' = Some (JObj am)" and
    k: "\<forall>k v. fields (Option.bind (map_of (body (gatewayRequest (mcp ?i))) ''params'')
                             get_arguments) k = Some v \<and>
                  \<not> startsWith k ''mcp_header_'' \<longrightarrow> map_of am k = Some v"
    by (elim exE conjE)
  have c: "fields (Option.bind (map_of (body (gatewayRequest (mcp ?i))) ''params'') get_arguments) ''city''
          = Some (JStr ''Oslo'') \<and> \<not> startsWith ''city'' ''mcp_header_''"
    by (simp add: fields_def startsWith_def)
  have "map_of am ''city'' = Some (JStr ''Oslo'')" by (rule k [rule_format, OF c])
  with w o p a show ?thesis by (intro conjI exI)
qed

text \<open>
  C10. The handler evaluated on an input envelope whose header mapping holds the single
  header \<open>__proto__\<close>: on every console it ends with the exception of a logging statement
  or returns an envelope in which the headers of the transformed request are present
  and empty, not the incoming mapping, while the filtered copy of the header reaches the
  arguments; on the runtime's console, with a stack that holds the envelopes, it returns
  that envelope.
\<close>

theorem proto_header_not_forwarded:
  "handleInterceptorRequest c proto_input =
     (case first_throw c (statements proto_input) of
        Some e \<Rightarrow> Inl e
      | None \<Rightarrow>
          Inr \<lparr>interceptorOutputVersion = ''1.0'',
               mcp_out = \<lparr>transformedGatewayRequest =
                            \<lparr>t_headers = Some [],
                             t_body = [(''params'', JObj [(''arguments'',
                                          JObj [(''mcp_header___proto__'', JStr ''x'')])])]\<rparr>,
                          transformedGatewayResponse = None\<rparr>\<rparr>) \<and>
   handleInterceptorRequest (node_console (5 + n)) proto_input =
     Inr \<lparr>interceptorOutputVersion = ''1.0'',
          mcp_out = \<lparr>transformedGatewayRequest =
                       \<lparr>t_headers = Some [],
                        t_body = [(''params'', JObj [(''arguments'',
                                     JObj [(''mcp_header___proto__'', JStr ''x'')])])]\<rparr>,
                     transformedGatewayResponse = None\<rparr>\<rparr>"
proof (rule conjI)
  have t: "transformed proto_input =
      \<lparr>interceptorOutputVersion = ''1.0'',
       mcp_out = \<lparr>transformedGatewayRequest =
                    \<lparr>t_headers = Some [],
                     t_body = [(''params'', JObj [(''arguments'',
                                  JObj [(''mcp_header___proto__'', JStr ''x'')])])]\<rparr>,
                  transformedGatewayResponse = None\<rparr>\<rparr>"
    by (simp add: transformed_def proto_input_def incoming_def forward_all_def assign_def
        define_prop_def filter_step_def prefix_key_def startsWith_def toLowerCase_def
        lower_char_def mergeBody_def spread_def json_of_headers_def Let_def)
  show "handleInterceptorRequest c proto_input =
     (case first_throw c (statements proto_input) of
        Some e \<Rightarrow> Inl e
      | None \<Rightarrow>
          Inr \<lparr>interceptorOutputVersion = ''1.0'',
               mcp_out = \<lparr>transformedGatewayRequest =
                            \<lparr>t_headers = Some [],
                             t_body = [(''params'', JObj [(''arguments'',
                                          JObj [(''mcp_header___proto__'', JStr ''x'')])])]\<rparr>,
                          transformedGatewayResponse = None\<rparr>\<rparr>)"
    unfolding t [symmetric] by (rule handleInterceptorRequest_run)
next
  show "handleInterceptorRequest (node_console (5 + n)) proto_input =
     Inr \<lparr>interceptorOutputVersion = ''1.0'',
          mcp_out = \<lparr>transformedGatewayRequest =
                       \<lparr>t_headers = Some [],
                        t_body = [(''params'', JObj [(''arguments'',
                                     JObj [(''mcp_header___proto__'', JStr ''x'')])])]\<rparr>,
                     transformedGatewayResponse = None\<rparr>\<rparr>"
    by (simp add: handleInterceptorRequest_def proto_input_def node_console_def
      propagateHeaders_def filterAndPrefixHeaders_def forward_all_def assign_def define_prop_def
      filter_step_def prefix_key_def startsWith_def toLowerCase_def lower_char_def
      mergeBody_def spread_def json_of_headers_def Let_def)
qed

end
